theory Spec2Isabelle
  imports Main
begin

section \<open>Runes, bytes and the library functions the lexer calls\<close>

text \<open>
  A Go string is a sequence of bytes, so it is a \<open>string\<close> (a list of 8-bit
  characters) here. A rune is an integer; the lexer's \<open>eof\<close> is \<open>-1\<close>.
\<close>

type_synonym rune = int

definition eof :: rune where
  "eof = - 1"

definition RuneError :: rune where
  "RuneError = 0xFFFD"

definition rune_of :: "char \<Rightarrow> rune" where
  "rune_of c = int (of_char c)"

definition byte :: "string \<Rightarrow> nat \<Rightarrow> nat" where
  "byte s i = of_char (s ! i)"

text \<open>
  \<open>utf8.DecodeRuneInString\<close> of Go's standard library: the first rune of \<open>s\<close> and
  its width in bytes; \<open>(RuneError, 0)\<close> on the empty string and \<open>(RuneError, 1)\<close> on
  an invalid or truncated encoding. \<open>seq_size\<close> and \<open>accept_range\<close> are the library's
  tables \<open>first\<close> and \<open>acceptRanges\<close> for the lead bytes \<open>0xC2..0xF4\<close>. Every index
  below is in range: \<open>byte s i\<close> is read only after \<open>i < length s\<close> is known.
\<close>

definition seq_size :: "nat \<Rightarrow> nat" where
  "seq_size s0 = (if s0 < 0xE0 then 2 else if s0 < 0xF0 then 3 else 4)"

definition accept_range :: "nat \<Rightarrow> nat \<times> nat" where
  "accept_range s0 =
     (if s0 = 0xE0 then (0xA0, 0xBF)
      else if s0 = 0xED then (0x80, 0x9F)
      else if s0 = 0xF0 then (0x90, 0xBF)
      else if s0 = 0xF4 then (0x80, 0x8F)
      else (0x80, 0xBF))"

definition DecodeRuneInString :: "string \<Rightarrow> rune \<times> nat" where
  "DecodeRuneInString s =
     (let n = length s in
      if n < 1 then (RuneError, 0)
      else
        let s0 = byte s 0 in
        if s0 < 0x80 then (int s0, 1)
        else if s0 < 0xC2 \<or> 0xF4 < s0 then (RuneError, 1)
        else
          let sz = seq_size s0 in
          if n < sz then (RuneError, 1)
          else
            let s1 = byte s 1 in
            if s1 < fst (accept_range s0) \<or> snd (accept_range s0) < s1 then (RuneError, 1)
            else if sz \<le> 2 then (int ((s0 mod 32) * 64 + s1 mod 64), 2)
            else
              let s2 = byte s 2 in
              if s2 < 0x80 \<or> 0xBF < s2 then (RuneError, 1)
              else if sz \<le> 3 then
                (int ((s0 mod 16) * 4096 + (s1 mod 64) * 64 + s2 mod 64), 3)
              else
                let s3 = byte s 3 in
                if s3 < 0x80 \<or> 0xBF < s3 then (RuneError, 1)
                else
                  (int ((s0 mod 8) * 262144 + (s1 mod 64) * 4096 + (s2 mod 64) * 64
                     + s3 mod 64), 4))"

text \<open>
  What the lexer takes from outside the repository and cannot be written out here:
  the Unicode range tables behind \<open>unicode.IsLetter\<close>, \<open>IsDigit\<close>, \<open>IsMark\<close>,
  \<open>IsSymbol\<close> and \<open>IsPunct\<close> (sets of code points), the XML tokenizer behind
  \<open>xml.Decoder.RawToken\<close>, and the quoting of \<open>fmt.Sprintf\<close>'s \<open>%q\<close>. They are
  parameters: every theorem below holds for all of them.

  \<open>xml_scan b bs\<close> stands for a non-strict decoder that has read the first byte \<open>b\<close> of
  its reader and finds \<open>bs\<close> behind it: \<open>None\<close> when \<open>RawToken\<close> returns an error,
  \<open>Some k\<close> when it returns a token after reading \<open>k\<close> more bytes.
\<close>

record env =
  Letter :: "nat \<Rightarrow> bool"
  Digit :: "nat \<Rightarrow> bool"
  Mark :: "nat \<Rightarrow> bool"
  Symbol :: "nat \<Rightarrow> bool"
  Punct :: "nat \<Rightarrow> bool"
  xml_scan :: "char \<Rightarrow> string \<Rightarrow> nat option"
  sprintf_q :: "string \<Rightarrow> string"

text \<open>The range tables hold code points, so a negative rune is in none of them.\<close>

definition IsLetter :: "env \<Rightarrow> rune \<Rightarrow> bool" where
  "IsLetter U r = (0 \<le> r \<and> Letter U (nat r))"

definition IsDigit :: "env \<Rightarrow> rune \<Rightarrow> bool" where
  "IsDigit U r = (0 \<le> r \<and> Digit U (nat r))"

definition IsMark :: "env \<Rightarrow> rune \<Rightarrow> bool" where
  "IsMark U r = (0 \<le> r \<and> Mark U (nat r))"

definition IsSymbol :: "env \<Rightarrow> rune \<Rightarrow> bool" where
  "IsSymbol U r = (0 \<le> r \<and> Symbol U (nat r))"

definition IsPunct :: "env \<Rightarrow> rune \<Rightarrow> bool" where
  "IsPunct U r = (0 \<le> r \<and> Punct U (nat r))"

text \<open>
  \<open>RawToken U s\<close> is the call \<open>decoder.RawToken()\<close> on a fresh decoder over a reader
  holding \<open>s\<close>: \<open>None\<close> for an error (on the empty reader, \<open>io.EOF\<close>), otherwise
  the value of \<open>reader.Len()\<close> after the call. The decoder reads byte by byte from
  the reader, and at least the first byte before it can return a token.
\<close>

definition RawToken :: "env \<Rightarrow> string \<Rightarrow> nat option" where
  "RawToken U s =
     (case s of
        [] \<Rightarrow> None
      | b # bs \<Rightarrow> (case xml_scan U b bs of None \<Rightarrow> None | Some k \<Rightarrow> Some (length bs - k)))"

text \<open>
  \<open>strings.IndexRune\<close> for the ASCII strings the lexer passes (\<open>"0123456789"\<close> and
  \<open>"."\<close>): the index of the first byte equal to an ASCII rune, and \<open>-1\<close> for every
  other rune (\<open>eof\<close>, \<open>RuneError\<close> and the runes from \<open>0x80\<close> on do not occur in
  an ASCII string).
\<close>

definition IndexRune :: "string \<Rightarrow> rune \<Rightarrow> int" where
  "IndexRune s r =
     (if 0 \<le> r \<and> r < 0x80 \<and> char_of (nat r) \<in> set s
      then int (length (takeWhile (\<lambda>c. c \<noteq> char_of (nat r)) s))
      else - 1)"

subsection \<open>Facts about the decoder\<close>

lemma decode_empty: "DecodeRuneInString [] = (RuneError, 0)"
  by (simp add: DecodeRuneInString_def)

lemma decode_width_cases:
  "DecodeRuneInString s = (r, w) \<Longrightarrow> s \<noteq> [] \<Longrightarrow> 1 \<le> w \<and> w \<le> length s"
  unfolding DecodeRuneInString_def Let_def seq_size_def
  by (auto simp: Suc_le_eq split: if_splits)

lemma decode_width: "s \<noteq> [] \<Longrightarrow> 1 \<le> snd (DecodeRuneInString s) \<and> snd (DecodeRuneInString s) \<le> length s"
  using decode_width_cases [of s "fst (DecodeRuneInString s)" "snd (DecodeRuneInString s)"] by simp

lemma decode_nonneg: "0 \<le> fst (DecodeRuneInString s)"
  by (simp add: DecodeRuneInString_def Let_def RuneError_def)

lemma decode_ascii: "s \<noteq> [] \<Longrightarrow> byte s 0 < 0x80 \<Longrightarrow> DecodeRuneInString s = (int (byte s 0), 1)"
  by (cases s) (simp_all add: DecodeRuneInString_def Let_def)

lemma byte_take: "i < k \<Longrightarrow> byte (take k s) i = byte s i"
  by (simp add: byte_def)

lemma decode_prefix_cases:
  assumes "DecodeRuneInString s = (r, w)" "w \<le> k"
  shows "DecodeRuneInString (take k s) = (r, w)"
proof (cases "k < length s")
  case False then show ?thesis using assms by simp
next
  case True
  show ?thesis
  proof (cases "k = 0")
    case True
    with assms \<open>k < length s\<close> show ?thesis
      using decode_width_cases [of s r w] by auto
  next
    case False
    with True assms show ?thesis
      unfolding DecodeRuneInString_def Let_def seq_size_def
      by (auto simp: byte_take min_def split: if_splits)
  qed
qed

lemma lead2: "194 \<le> (b::nat) \<Longrightarrow> b < 224 \<Longrightarrow> 2 \<le> b mod 32"
proof -
  assume a: "194 \<le> b" "b < 224"
  have "b = 32 * (b div 32) + b mod 32" by simp
  moreover from a have "b div 32 = 6" by linarith
  ultimately show ?thesis using a by linarith
qed

lemma lead3: "224 < (b::nat) \<Longrightarrow> b < 240 \<Longrightarrow> 1 \<le> b mod 16"
proof -
  assume a: "224 < b" "b < 240"
  have "b = 16 * (b div 16) + b mod 16" by simp
  moreover from a have "b div 16 = 14" by linarith
  ultimately show ?thesis using a by linarith
qed

lemma cont3: "160 \<le> (c::nat) \<Longrightarrow> c \<le> 191 \<Longrightarrow> 32 \<le> c mod 64"
proof -
  assume a: "160 \<le> c" "c \<le> 191"
  have "c = 64 * (c div 64) + c mod 64" by simp
  moreover from a have "c div 64 = 2" by linarith
  ultimately show ?thesis using a by linarith
qed

lemma lead4: "240 < (b::nat) \<Longrightarrow> b \<le> 244 \<Longrightarrow> 1 \<le> b mod 8"
proof -
  assume a: "240 < b" "b \<le> 244"
  have "b = 8 * (b div 8) + b mod 8" by simp
  moreover from a have "b div 8 = 30" by linarith
  ultimately show ?thesis using a by linarith
qed

lemma cont4: "144 \<le> (c::nat) \<Longrightarrow> c \<le> 191 \<Longrightarrow> 16 \<le> c mod 64"
proof -
  assume a: "144 \<le> c" "c \<le> 191"
  have "c = 64 * (c div 64) + c mod 64" by simp
  moreover from a have "c div 64 = 2" by linarith
  ultimately show ?thesis using a by linarith
qed

lemma decode_ge_128:
  assumes "s = [] \<or> 128 \<le> byte s 0"
  shows "128 \<le> fst (DecodeRuneInString s)"
proof (cases "s = []")
  case True then show ?thesis by (simp add: DecodeRuneInString_def RuneError_def)
next
  case False
  with assms have b0: "128 \<le> byte s 0" by simp
  have m2: "194 \<le> byte s 0 \<Longrightarrow> byte s 0 < 224 \<Longrightarrow> 2 \<le> byte s 0 mod 32"
    by (rule lead2)
  have m3: "224 < byte s 0 \<Longrightarrow> byte s 0 < 240 \<Longrightarrow> 1 \<le> byte s 0 mod 16"
    by (rule lead3)
  have m4: "240 < byte s 0 \<Longrightarrow> byte s 0 \<le> 244 \<Longrightarrow> 1 \<le> byte s 0 mod 8"
    by (rule lead4)
  have c3: "160 \<le> byte s (Suc 0) \<Longrightarrow> byte s (Suc 0) \<le> 191 \<Longrightarrow> 32 \<le> byte s (Suc 0) mod 64"
    by (rule cont3)
  have c4: "144 \<le> byte s (Suc 0) \<Longrightarrow> byte s (Suc 0) \<le> 191 \<Longrightarrow> 16 \<le> byte s (Suc 0) mod 64"
    by (rule cont4)
  consider "byte s 0 < 194" | "194 \<le> byte s 0" "byte s 0 < 224" | "byte s 0 = 224"
    | "224 < byte s 0" "byte s 0 < 240" | "byte s 0 = 240" | "240 < byte s 0" "byte s 0 \<le> 244"
    | "244 < byte s 0"
    by linarith
  then show ?thesis
  proof cases
    case 1
    with False b0 show ?thesis
      by (simp add: DecodeRuneInString_def Let_def RuneError_def)
  next
    case 2
    with False b0 m2 show ?thesis
      unfolding DecodeRuneInString_def Let_def seq_size_def
      by (simp add: not_less RuneError_def; linarith)
  next
    case 3
    with False b0 c3 show ?thesis
      unfolding DecodeRuneInString_def Let_def seq_size_def
      by (simp add: not_less RuneError_def accept_range_def; linarith)
  next
    case 4
    with False b0 m3 show ?thesis
      unfolding DecodeRuneInString_def Let_def seq_size_def
      by (simp add: not_less RuneError_def; linarith)
  next
    case 5
    with False b0 c4 show ?thesis
      unfolding DecodeRuneInString_def Let_def seq_size_def
      by (simp add: not_less RuneError_def accept_range_def; linarith)
  next
    case 6
    with False b0 m4 show ?thesis
      unfolding DecodeRuneInString_def Let_def seq_size_def
      by (simp add: not_less RuneError_def; linarith)
  next
    case 7
    with False b0 show ?thesis
      by (simp add: DecodeRuneInString_def Let_def RuneError_def)
  qed
qed

lemma decode_lt_128:
  "fst (DecodeRuneInString s) < 0x80 \<Longrightarrow> s \<noteq> [] \<and> byte s 0 < 0x80"
  using decode_ge_128 [of s] by fastforce

section \<open>The lexer (lexer.go)\<close>

datatype itemType =
  itemError | itemEOF | itemLeftMeta | itemRightMeta | itemLeftTag | itemRightTag
  | itemNumber | itemWord | itemQuote | itemSpace | itemMark | itemXML | itemTitle

record item =
  "typ" :: itemType
  val :: string

text \<open>
  \<open>stateFn\<close>: the state functions by name; the \<open>nil\<close> state is \<open>None\<close>. The channel
  \<open>items\<close> is the sequence of the items sent on it so far, in order.
\<close>

datatype stateFn = LexArticle | LexSpace | LexWord | LexQuote | LexTitle | LexXML | LexNumber

record lexer =
  input :: string
  state :: "stateFn option"
  start :: nat
  pos :: nat
  width :: nat
  items :: "item list"

datatype error = XMLPanic

definition lex :: "string \<Rightarrow> lexer" where
  "lex inp = \<lparr>input = inp, state = Some LexArticle, start = 0, pos = 0, width = 0, items = []\<rparr>"

definition errorf :: "string \<Rightarrow> lexer \<Rightarrow> stateFn option \<times> lexer" where
  "errorf msg l = (None, l\<lparr>items := items l @ [\<lparr>typ = itemError, val = msg\<rparr>]\<rparr>)"

definition next_rune :: "lexer \<Rightarrow> rune \<times> lexer" where
  "next_rune l =
     (if pos l \<ge> length (input l) then (eof, l\<lparr>width := 0\<rparr>)
      else
        let (r, w) = DecodeRuneInString (drop (pos l) (input l)) in
        (r, l\<lparr>width := w, pos := pos l + w\<rparr>))"

definition ignore :: "lexer \<Rightarrow> lexer" where
  "ignore l = l\<lparr>start := pos l\<rparr>"

definition backup :: "lexer \<Rightarrow> lexer" where
  "backup l = l\<lparr>pos := pos l - width l\<rparr>"

text \<open>\<open>slice s a b\<close> is Go's \<open>s[a:b]\<close>, for \<open>a \<le> b \<le> len(s)\<close>.\<close>

definition slice :: "string \<Rightarrow> nat \<Rightarrow> nat \<Rightarrow> string" where
  "slice s a b = take (b - a) (drop a s)"

definition emit :: "itemType \<Rightarrow> lexer \<Rightarrow> lexer" where
  "emit t l =
     l\<lparr>items := items l @ [\<lparr>typ = t, val = slice (input l) (start l) (pos l)\<rparr>],
       start := pos l\<rparr>"

definition peek :: "lexer \<Rightarrow> rune \<times> lexer" where
  "peek l = (let (r, l1) = next_rune l in (r, backup l1))"

definition accept :: "string \<Rightarrow> lexer \<Rightarrow> bool \<times> lexer" where
  "accept valid l =
     (let (r, l1) = next_rune l in
      if IndexRune valid r \<ge> 0 then (True, l1) else (False, backup l1))"

definition isAlphaNumeric :: "env \<Rightarrow> rune \<Rightarrow> bool" where
  "isAlphaNumeric U r = (r = rune_of CHR ''_'' \<or> IsLetter U r \<or> IsDigit U r)"

definition isSpace :: "rune \<Rightarrow> bool" where
  "isSpace r = (r = rune_of CHR '' '' \<or> r = rune_of CHR 0x09)"

subsection \<open>Reading runes\<close>

lemma next_rune_fields [simp]:
  "input (snd (next_rune l)) = input l"
  "start (snd (next_rune l)) = start l"
  "items (snd (next_rune l)) = items l"
  "state (snd (next_rune l)) = state l"
  by (simp_all add: next_rune_def split: prod.split)

lemma next_rune_eof: "fst (next_rune l) = eof \<longleftrightarrow> length (input l) \<le> pos l"
  using decode_nonneg [of "drop (pos l) (input l)"]
  by (auto simp: next_rune_def eof_def split: prod.split)

lemma next_rune_pos:
  "pos (snd (next_rune l)) = pos l + width (snd (next_rune l))"
  by (simp add: next_rune_def split: prod.split)

lemma next_rune_width:
  "pos l < length (input l) \<Longrightarrow>
     1 \<le> width (snd (next_rune l)) \<and> pos l + width (snd (next_rune l)) \<le> length (input l)"
  using decode_width_cases [of "drop (pos l) (input l)"]
  by (auto simp: next_rune_def split: prod.split)

lemma next_rune_at_end:
  "length (input l) \<le> pos l \<Longrightarrow> next_rune l = (eof, l\<lparr>width := 0\<rparr>)"
  by (simp add: next_rune_def)

lemma peek_fields [simp]:
  "input (snd (peek l)) = input l"
  "start (snd (peek l)) = start l"
  "items (snd (peek l)) = items l"
  "state (snd (peek l)) = state l"
  "pos (snd (peek l)) = pos l"
  "fst (peek l) = fst (next_rune l)"
  by (simp_all add: peek_def backup_def next_rune_def split: prod.split)

lemma rune_of_neq_eof [simp]: "rune_of c \<noteq> eof" "eof \<noteq> rune_of c"
  by (simp_all add: rune_of_def eof_def)

lemma isSpace_eof [simp]: "\<not> isSpace eof"
  by (simp add: isSpace_def)

lemma isAlphaNumeric_eof [simp]: "\<not> isAlphaNumeric U eof"
  by (simp add: isAlphaNumeric_def IsLetter_def IsDigit_def eof_def rune_of_def)

lemma IndexRune_eof [simp]: "\<not> 0 \<le> IndexRune valid eof"
  by (simp add: IndexRune_def eof_def)

text \<open>One more rune can be read: the step every loop of the lexer takes.\<close>

lemma next_decreases:
  "fst (next_rune l) \<noteq> eof \<Longrightarrow> pos l' = pos l \<Longrightarrow> input l' = input l \<Longrightarrow>
     length (input l') - pos (snd (next_rune l')) < length (input l) - pos l"
proof -
  assume "fst (next_rune l) \<noteq> eof" and p: "pos l' = pos l" and i: "input l' = input l"
  then have "pos l' < length (input l')" by (simp add: next_rune_eof)
  from next_rune_width [OF this] next_rune_pos [of l'] p show ?thesis
    unfolding i by linarith
qed

function lexSpace_loop :: "lexer \<Rightarrow> lexer" where
  "lexSpace_loop l =
     (let (r, l1) = peek l in
      if isSpace r then lexSpace_loop (snd (next_rune l1)) else l1)"
  by pat_completeness auto
termination
proof (relation "measure (\<lambda>l. length (input l) - pos l)")
  show "wf (measure (\<lambda>l. length (input l) - pos l))" by simp
next
  fix l :: lexer and x r l1
  assume x: "x = peek l" and p: "(r, l1) = x" and s: "isSpace r"
  from x p have l1: "l1 = snd (peek l)" and r: "r = fst (next_rune l)"
    by (simp_all add: prod_eq_iff)
  from s r have "fst (next_rune l) \<noteq> eof" by auto
  from next_decreases [OF this, of l1]
  show "(snd (next_rune l1), l) \<in> measure (\<lambda>l. length (input l) - pos l)"
    by (simp add: l1)
qed

function lexQuote_loop :: "lexer \<Rightarrow> lexer" where
  "lexQuote_loop l =
     (let (r, l1) = peek l in
      if r = rune_of CHR 0x27 then lexQuote_loop (snd (next_rune l1)) else l1)"
  by pat_completeness auto
termination
proof (relation "measure (\<lambda>l. length (input l) - pos l)")
  show "wf (measure (\<lambda>l. length (input l) - pos l))" by simp
next
  fix l :: lexer and x r l1
  assume x: "x = peek l" and p: "(r, l1) = x" and s: "r = rune_of CHR 0x27"
  from x p have l1: "l1 = snd (peek l)" and r: "r = fst (next_rune l)"
    by (simp_all add: prod_eq_iff)
  from s r have "fst (next_rune l) \<noteq> eof" by auto
  from next_decreases [OF this, of l1]
  show "(snd (next_rune l1), l) \<in> measure (\<lambda>l. length (input l) - pos l)"
    by (simp add: l1)
qed

function lexTitle_loop :: "lexer \<Rightarrow> lexer" where
  "lexTitle_loop l =
     (let (r, l1) = peek l in
      if r = rune_of CHR ''='' then lexTitle_loop (snd (next_rune l1)) else l1)"
  by pat_completeness auto
termination
proof (relation "measure (\<lambda>l. length (input l) - pos l)")
  show "wf (measure (\<lambda>l. length (input l) - pos l))" by simp
next
  fix l :: lexer and x r l1
  assume x: "x = peek l" and p: "(r, l1) = x" and s: "r = rune_of CHR ''=''"
  from x p have l1: "l1 = snd (peek l)" and r: "r = fst (next_rune l)"
    by (simp_all add: prod_eq_iff)
  from s r have "fst (next_rune l) \<noteq> eof" by auto
  from next_decreases [OF this, of l1]
  show "(snd (next_rune l1), l) \<in> measure (\<lambda>l. length (input l) - pos l)"
    by (simp add: l1)
qed

definition and_peek :: "char \<Rightarrow> rune \<Rightarrow> lexer \<Rightarrow> bool \<times> lexer" where
  "and_peek c r l =
     (if r = rune_of c then (let (p, l1) = peek l in (p = rune_of c, l1)) else (False, l))"

function lexWord_loop :: "env \<Rightarrow> lexer \<Rightarrow> lexer" where
  "lexWord_loop U l =
     (let (r, l1) = next_rune l;
          (c, l2) = and_peek (CHR 0x27) r l1
      in if c then emit itemWord (backup l2)
         else if isAlphaNumeric U r \<or> r = rune_of CHR ''-'' \<or> r = rune_of CHR 0x27
           then lexWord_loop U l2
           else emit itemWord (backup l2))"
  by pat_completeness auto
termination
proof (relation "measure (\<lambda>(U, l). length (input l) - pos l)")
  show "wf (measure (\<lambda>(U, l). length (input l) - pos l))" by simp
next
  fix U :: env and l :: lexer and x r l1 y c l2
  assume x: "x = next_rune l" and p: "(r, l1) = x"
    and y: "y = and_peek (CHR 0x27) r l1" and q: "(c, l2) = y"
    and a: "isAlphaNumeric U r \<or> r = rune_of CHR ''-'' \<or> r = rune_of CHR 0x27"
  from x p have l1: "l1 = snd (next_rune l)" and r: "r = fst (next_rune l)"
    by (simp_all add: prod_eq_iff)
  from y q have l2: "pos l2 = pos l1" "input l2 = input l1"
    by (auto simp: and_peek_def prod_eq_iff split: if_splits prod.splits)
  from a r have "fst (next_rune l) \<noteq> eof" by auto
  from next_decreases [OF this, of l] l2
  show "((U, l2), (U, l)) \<in> measure (\<lambda>(U, l). length (input l) - pos l)"
    by (simp add: l1)
qed

function acceptRun :: "string \<Rightarrow> lexer \<Rightarrow> lexer" where
  "acceptRun valid l =
     (let (r, l1) = next_rune l in
      if IndexRune valid r \<ge> 0 then acceptRun valid l1 else backup l1)"
  by pat_completeness auto
termination
proof (relation "measure (\<lambda>(v, l). length (input l) - pos l)")
  show "wf (measure (\<lambda>(v, l). length (input l) - pos l))" by simp
next
  fix valid :: string and l :: lexer and x r l1
  assume x: "x = next_rune l" and p: "(r, l1) = x" and a: "0 \<le> IndexRune valid r"
  from x p have l1: "l1 = snd (next_rune l)" and r: "r = fst (next_rune l)"
    by (simp_all add: prod_eq_iff)
  from a r have "fst (next_rune l) \<noteq> eof" by auto
  from next_decreases [OF this, of l]
  show "((valid, l1), (valid, l)) \<in> measure (\<lambda>(v, l). length (input l) - pos l)"
    by (simp add: l1)
qed

subsection \<open>The state functions\<close>

definition lexSpace :: "lexer \<Rightarrow> stateFn option \<times> lexer" where
  "lexSpace l = (Some LexArticle, emit itemSpace (lexSpace_loop l))"

definition lexWord :: "env \<Rightarrow> lexer \<Rightarrow> stateFn option \<times> lexer" where
  "lexWord U l = (Some LexArticle, lexWord_loop U l)"

definition lexQuote :: "lexer \<Rightarrow> stateFn option \<times> lexer" where
  "lexQuote l = (Some LexArticle, emit itemQuote (lexQuote_loop l))"

definition lexTitle :: "lexer \<Rightarrow> stateFn option \<times> lexer" where
  "lexTitle l = (Some LexArticle, emit itemTitle (lexTitle_loop l))"

definition lexXML :: "env \<Rightarrow> lexer \<Rightarrow> error + stateFn option \<times> lexer" where
  "lexXML U l =
     (let rest = drop (pos l) (input l);
          u = length rest
      in case RawToken U rest of
           None \<Rightarrow> Inl XMLPanic
         | Some v \<Rightarrow> Inr (Some LexArticle, emit itemXML (l\<lparr>pos := pos l + (u - v)\<rparr>)))"

definition lexNumber :: "env \<Rightarrow> lexer \<Rightarrow> stateFn option \<times> lexer" where
  "lexNumber U l =
     (let digits = ''0123456789'';
          l1 = acceptRun digits l;
          (a, l2) = accept ''.'' l1;
          l3 = (if a then acceptRun digits l2 else l2);
          (p, l4) = peek l3
      in if isAlphaNumeric U p then
           (let l5 = snd (next_rune l4) in
            errorf (''bad number syntax: '' @ sprintf_q U (slice (input l5) (start l5) (pos l5))) l5)
         else (Some LexArticle, emit itemNumber l4))"

definition lexArticle :: "env \<Rightarrow> lexer \<Rightarrow> stateFn option \<times> lexer" where
  "lexArticle U l =
     (let (r, l1) = next_rune l in
      if r = eof then (None, emit itemEOF l1)
      else let (c2, l2) = and_peek (CHR ''{'') r l1 in
      if c2 then (Some LexArticle, emit itemLeftMeta (snd (next_rune l2)))
      else let (c3, l3) = and_peek (CHR ''}'') r l2 in
      if c3 then (Some LexArticle, emit itemRightMeta (snd (next_rune l3)))
      else let (c4, l4) = and_peek (CHR ''['') r l3 in
      if c4 then (Some LexArticle, emit itemLeftTag (snd (next_rune l4)))
      else let (c5, l5) = and_peek (CHR '']'') r l4 in
      if c5 then (Some LexArticle, emit itemRightTag (snd (next_rune l5)))
      else if r = rune_of (CHR 0x27) then (Some LexQuote, l5)
      else if r = rune_of (CHR ''<'') then (Some LexXML, backup l5)
      else if r = rune_of (CHR ''='') then (Some LexTitle, l5)
      else if isSpace r then (Some LexSpace, l5)
      else if IsMark U r \<or> IsSymbol U r \<or> IsPunct U r then (Some LexArticle, emit itemMark l5)
      else if isAlphaNumeric U r then (Some LexWord, l5)
      else (Some LexArticle, l5))"

definition call_state :: "env \<Rightarrow> stateFn \<Rightarrow> lexer \<Rightarrow> error + stateFn option \<times> lexer" where
  "call_state U f l =
     (case f of
        LexArticle \<Rightarrow> Inr (lexArticle U l)
      | LexSpace \<Rightarrow> Inr (lexSpace l)
      | LexWord \<Rightarrow> Inr (lexWord U l)
      | LexQuote \<Rightarrow> Inr (lexQuote l)
      | LexTitle \<Rightarrow> Inr (lexTitle l)
      | LexXML \<Rightarrow> lexXML U l
      | LexNumber \<Rightarrow> Inr (lexNumber U l))"

subsection \<open>Positions only move forward\<close>

lemma emit_fields [simp]:
  "input (emit t l) = input l"
  "pos (emit t l) = pos l"
  "start (emit t l) = pos l"
  "state (emit t l) = state l"
  "width (emit t l) = width l"
  "items (emit t l) = items l @ [\<lparr>typ = t, val = slice (input l) (start l) (pos l)\<rparr>]"
  by (simp_all add: emit_def)

lemma backup_fields [simp]:
  "input (backup l) = input l"
  "start (backup l) = start l"
  "items (backup l) = items l"
  "state (backup l) = state l"
  "pos (backup l) = pos l - width l"
  by (simp_all add: backup_def)

lemma next_rune_mono: "pos l \<le> pos (snd (next_rune l))"
  by (simp add: next_rune_pos)

lemma next_rune_bound: "pos l \<le> length (input l) \<Longrightarrow> pos (snd (next_rune l)) \<le> length (input l)"
  using next_rune_width [of l] next_rune_pos [of l] next_rune_at_end [of l]
  by (cases "pos l < length (input l)") auto

lemma backup_next [simp]: "pos (backup (snd (next_rune l))) = pos l"
  by (simp add: next_rune_pos)

lemma and_peek_fields [simp]:
  "input (snd (and_peek c r l)) = input l"
  "start (snd (and_peek c r l)) = start l"
  "items (snd (and_peek c r l)) = items l"
  "state (snd (and_peek c r l)) = state l"
  "pos (snd (and_peek c r l)) = pos l"
  by (simp_all add: and_peek_def case_prod_beta)

lemma and_peek_True: "fst (and_peek c r l) \<Longrightarrow> r = rune_of c \<and> fst (next_rune l) = rune_of c"
  by (auto simp: and_peek_def case_prod_beta split: if_splits)

declare lexSpace_loop.simps [simp del] lexQuote_loop.simps [simp del]
  lexTitle_loop.simps [simp del] lexWord_loop.simps [simp del] acceptRun.simps [simp del]

lemma lexSpace_loop_unfold:
  "lexSpace_loop l =
     (if isSpace (fst (next_rune l)) then lexSpace_loop (snd (next_rune (snd (peek l))))
      else snd (peek l))"
  by (subst lexSpace_loop.simps) (simp add: case_prod_beta)

lemma lexSpace_loop_induct [case_names step]:
  assumes "\<And>l. (isSpace (fst (next_rune l)) \<Longrightarrow> P (snd (next_rune (snd (peek l))))) \<Longrightarrow> P l"
  shows "P l"
proof (induction l rule: lexSpace_loop.induct)
  case (1 l)
  show ?case
  proof (rule assms)
    assume "isSpace (fst (next_rune l))"
    then show "P (snd (next_rune (snd (peek l))))"
      using "1" [of "peek l" "fst (peek l)" "snd (peek l)"] by (simp add: prod_eq_iff)
  qed
qed

lemma lexSpace_loop_fields [simp]:
  "input (lexSpace_loop l) = input l"
  "start (lexSpace_loop l) = start l"
  "items (lexSpace_loop l) = items l"
  "state (lexSpace_loop l) = state l"
  by (induction l rule: lexSpace_loop_induct, subst lexSpace_loop_unfold, simp)+

lemma lexQuote_loop_unfold:
  "lexQuote_loop l =
     (if fst (next_rune l) = rune_of (CHR 0x27) then lexQuote_loop (snd (next_rune (snd (peek l))))
      else snd (peek l))"
  by (subst lexQuote_loop.simps) (simp add: case_prod_beta)

lemma lexQuote_loop_induct [case_names step]:
  assumes "\<And>l. (fst (next_rune l) = rune_of (CHR 0x27) \<Longrightarrow> P (snd (next_rune (snd (peek l))))) \<Longrightarrow> P l"
  shows "P l"
proof (induction l rule: lexQuote_loop.induct)
  case (1 l)
  show ?case
  proof (rule assms)
    assume "fst (next_rune l) = rune_of (CHR 0x27)"
    then show "P (snd (next_rune (snd (peek l))))"
      using "1" [of "peek l" "fst (peek l)" "snd (peek l)"] by (simp add: prod_eq_iff)
  qed
qed

lemma lexQuote_loop_fields [simp]:
  "input (lexQuote_loop l) = input l"
  "start (lexQuote_loop l) = start l"
  "items (lexQuote_loop l) = items l"
  "state (lexQuote_loop l) = state l"
  by (induction l rule: lexQuote_loop_induct, subst lexQuote_loop_unfold, simp)+

lemma lexTitle_loop_unfold:
  "lexTitle_loop l =
     (if fst (next_rune l) = rune_of (CHR ''='') then lexTitle_loop (snd (next_rune (snd (peek l))))
      else snd (peek l))"
  by (subst lexTitle_loop.simps) (simp add: case_prod_beta)

lemma lexTitle_loop_induct [case_names step]:
  assumes "\<And>l. (fst (next_rune l) = rune_of (CHR ''='') \<Longrightarrow> P (snd (next_rune (snd (peek l))))) \<Longrightarrow> P l"
  shows "P l"
proof (induction l rule: lexTitle_loop.induct)
  case (1 l)
  show ?case
  proof (rule assms)
    assume "fst (next_rune l) = rune_of (CHR ''='')"
    then show "P (snd (next_rune (snd (peek l))))"
      using "1" [of "peek l" "fst (peek l)" "snd (peek l)"] by (simp add: prod_eq_iff)
  qed
qed

lemma lexTitle_loop_fields [simp]:
  "input (lexTitle_loop l) = input l"
  "start (lexTitle_loop l) = start l"
  "items (lexTitle_loop l) = items l"
  "state (lexTitle_loop l) = state l"
  by (induction l rule: lexTitle_loop_induct, subst lexTitle_loop_unfold, simp)+

text \<open>The three scanning loops stop at a position between the one they start from and the end.\<close>

lemma peek_next_mono: "pos l \<le> pos (snd (next_rune (snd (peek l))))"
  using next_rune_mono [of "snd (peek l)"] by simp

lemma peek_next_bound:
  "pos l \<le> length (input l) \<Longrightarrow> pos (snd (next_rune (snd (peek l)))) \<le> length (input l)"
  using next_rune_bound [of "snd (peek l)"] by simp

lemma lexSpace_loop_pos:
  "pos l \<le> pos (lexSpace_loop l) \<and> (pos l \<le> length (input l) \<longrightarrow> pos (lexSpace_loop l) \<le> length (input l))"
proof (induction l rule: lexSpace_loop_induct)
  case (step l)
  show ?case
  proof (cases "isSpace (fst (next_rune l))")
    case True
    from step [OF True] peek_next_mono [of l] peek_next_bound [of l] True show ?thesis
      by (subst (1 2) lexSpace_loop_unfold) auto
  next
    case False
    then show ?thesis by (subst (1 2) lexSpace_loop_unfold) simp
  qed
qed

lemma lexQuote_loop_pos:
  "pos l \<le> pos (lexQuote_loop l) \<and> (pos l \<le> length (input l) \<longrightarrow> pos (lexQuote_loop l) \<le> length (input l))"
proof (induction l rule: lexQuote_loop_induct)
  case (step l)
  show ?case
  proof (cases "fst (next_rune l) = rune_of (CHR 0x27)")
    case True
    from step [OF True] peek_next_mono [of l] peek_next_bound [of l] True show ?thesis
      by (subst (1 2) lexQuote_loop_unfold) auto
  next
    case False
    then show ?thesis by (subst (1 2) lexQuote_loop_unfold) simp
  qed
qed

lemma lexTitle_loop_pos:
  "pos l \<le> pos (lexTitle_loop l) \<and> (pos l \<le> length (input l) \<longrightarrow> pos (lexTitle_loop l) \<le> length (input l))"
proof (induction l rule: lexTitle_loop_induct)
  case (step l)
  show ?case
  proof (cases "fst (next_rune l) = rune_of (CHR ''='')")
    case True
    from step [OF True] peek_next_mono [of l] peek_next_bound [of l] True show ?thesis
      by (subst (1 2) lexTitle_loop_unfold) auto
  next
    case False
    then show ?thesis by (subst (1 2) lexTitle_loop_unfold) simp
  qed
qed

subsection \<open>ASCII runes are single bytes\<close>

lemma next_rune_ascii:
  assumes "fst (next_rune l) = r" "0 \<le> r" "r < 0x80"
  shows "pos l < length (input l) \<and> int (byte (input l) (pos l)) = r
         \<and> width (snd (next_rune l)) = 1 \<and> pos (snd (next_rune l)) = pos l + 1"
proof -
  from assms have ne: "fst (next_rune l) \<noteq> eof" by (auto simp: eof_def)
  then have lt: "pos l < length (input l)" by (simp add: next_rune_eof)
  let ?s = "drop (pos l) (input l)"
  from lt have r: "fst (next_rune l) = fst (DecodeRuneInString ?s)"
    and w: "width (snd (next_rune l)) = snd (DecodeRuneInString ?s)"
    by (simp_all add: next_rune_def case_prod_beta)
  from assms r have "fst (DecodeRuneInString ?s) < 0x80" by simp
  from decode_lt_128 [OF this] have b: "byte ?s 0 < 0x80" and n: "?s \<noteq> []" by simp_all
  from decode_ascii [OF n b] have d: "DecodeRuneInString ?s = (int (byte ?s 0), 1)" .
  from lt have "byte ?s 0 = byte (input l) (pos l)" by (simp add: byte_def)
  with d r w assms(1) lt show ?thesis by (simp add: next_rune_pos)
qed

lemma next_rune_byte:
  assumes "pos l < length (input l)" "byte (input l) (pos l) < 0x80"
  shows "next_rune l = (int (byte (input l) (pos l)), l\<lparr>width := 1, pos := pos l + 1\<rparr>)"
proof -
  let ?s = "drop (pos l) (input l)"
  from assms have "?s \<noteq> []" "byte ?s 0 < 0x80" by (simp_all add: byte_def)
  from decode_ascii [OF this] assms show ?thesis
    by (simp add: next_rune_def byte_def)
qed

lemma of_char_lt_256: "(of_char c :: nat) < 256"
  by (cases c) simp

subsection \<open>The word loop and the digit loop\<close>

lemma next_rune_pos_width [simp]: "pos (snd (next_rune l)) - width (snd (next_rune l)) = pos l"
  by (simp add: next_rune_pos)

lemma lexWord_loop_unfold:
  "lexWord_loop U l =
     (let r = fst (next_rune l);
          l2 = snd (and_peek (CHR 0x27) r (snd (next_rune l)))
      in if fst (and_peek (CHR 0x27) r (snd (next_rune l))) then emit itemWord (backup l2)
         else if isAlphaNumeric U r \<or> r = rune_of CHR ''-'' \<or> r = rune_of CHR 0x27
           then lexWord_loop U l2
           else emit itemWord (backup l2))"
  by (subst lexWord_loop.simps) (simp add: case_prod_beta Let_def)

definition absorbs :: "env \<Rightarrow> lexer \<Rightarrow> bool" where
  "absorbs U l =
     (let r = fst (next_rune l) in
      \<not> fst (and_peek (CHR 0x27) r (snd (next_rune l)))
      \<and> (isAlphaNumeric U r \<or> r = rune_of CHR ''-'' \<or> r = rune_of CHR 0x27))"

definition after_rune :: "lexer \<Rightarrow> lexer" where
  "after_rune l = snd (and_peek (CHR 0x27) (fst (next_rune l)) (snd (next_rune l)))"

lemma lexWord_loop_step:
  "lexWord_loop U l =
     (if absorbs U l then lexWord_loop U (after_rune l) else emit itemWord (backup (after_rune l)))"
  by (subst lexWord_loop_unfold) (auto simp: absorbs_def after_rune_def Let_def)

lemma lexWord_loop_induct [case_names step]:
  assumes "\<And>l. (absorbs U l \<Longrightarrow> P (after_rune l)) \<Longrightarrow> P l"
  shows "P l"
proof -
  have "U' = U \<longrightarrow> P l" for U'
  proof (induction U' l rule: lexWord_loop.induct)
  case (1 U' l)
  show ?case
  proof (rule impI, rule assms)
    assume u: "U' = U" and "absorbs U l"
    then show "P (after_rune l)"
      using "1" [of "next_rune l" "fst (next_rune l)" "snd (next_rune l)"
          "and_peek (CHR 0x27) (fst (next_rune l)) (snd (next_rune l))"
          "fst (and_peek (CHR 0x27) (fst (next_rune l)) (snd (next_rune l)))"
          "after_rune l"]
      by (simp add: prod_eq_iff absorbs_def after_rune_def Let_def)
  qed
  qed
  then show ?thesis by simp
qed

lemma after_rune_fields [simp]:
  "input (after_rune l) = input l"
  "start (after_rune l) = start l"
  "items (after_rune l) = items l"
  "state (after_rune l) = state l"
  "pos (after_rune l) = pos (snd (next_rune l))"
  by (simp_all add: after_rune_def)

lemma absorbs_not_eof: "absorbs U l \<Longrightarrow> fst (next_rune l) \<noteq> eof"
  by (auto simp: absorbs_def Let_def)

lemma apostrophe_code: "rune_of (CHR 0x27) = 39"
  by (simp add: rune_of_def)

text \<open>
  The \<open>backup\<close> that ends the word loop undoes the last \<open>next\<close>: \<open>width\<close> is the width
  of that rune, or of the apostrophe peeked behind an apostrophe, which has the same width.
\<close>

lemma backup_after_rune:
  "\<not> absorbs U l \<Longrightarrow> pos (backup (after_rune l)) = pos l"
proof -
  assume na: "\<not> absorbs U l"
  let ?r = "fst (next_rune l)" and ?l1 = "snd (next_rune l)"
  show ?thesis
  proof (cases "?r = rune_of (CHR 0x27)")
    case False
    then have "after_rune l = ?l1" by (simp add: after_rune_def and_peek_def)
    then show ?thesis by simp
  next
    case True
    with na have c: "fst (and_peek (CHR 0x27) ?r ?l1)" by (simp add: absorbs_def Let_def)
    then have p: "fst (next_rune ?l1) = rune_of (CHR 0x27)" by (rule and_peek_True [THEN conjunct2])
    from True have "fst (next_rune l) = 39" by (simp add: apostrophe_code)
    from next_rune_ascii [OF this] have p1: "pos ?l1 = pos l + 1" by simp
    from p have "fst (next_rune ?l1) = 39" by (simp add: apostrophe_code)
    from next_rune_ascii [OF this] have "width (snd (next_rune ?l1)) = 1" by simp
    then have "width (after_rune l) = 1"
      using True by (simp add: after_rune_def and_peek_def case_prod_beta peek_def backup_def)
    with p1 show ?thesis by simp
  qed
qed

lemma lexWord_loop_fields [simp]:
  "input (lexWord_loop U l) = input l"
  "state (lexWord_loop U l) = state l"
  by (induction l rule: lexWord_loop_induct [where U = U], subst lexWord_loop_step, simp)+

lemma lexWord_loop_start [simp]: "start (lexWord_loop U l) = pos (lexWord_loop U l)"
  by (induction l rule: lexWord_loop_induct [where U = U], subst (1 2) lexWord_loop_step, simp)

lemma lexWord_loop_pos:
  "pos l \<le> pos (lexWord_loop U l) \<and> (pos l \<le> length (input l) \<longrightarrow> pos (lexWord_loop U l) \<le> length (input l))"
proof (induction l rule: lexWord_loop_induct [where U = U])
  case (step l)
  show ?case
  proof (cases "absorbs U l")
    case True
    from step [OF True] next_rune_mono [of l] next_rune_bound [of l] True show ?thesis
      by (subst (1 2) lexWord_loop_step) auto
  next
    case False
    from backup_after_rune [OF False] False show ?thesis
      by (subst (1 2) lexWord_loop_step) (simp add: emit_def)
  qed
qed

lemma lexWord_loop_items:
  "items (lexWord_loop U l) =
     items l @ [\<lparr>typ = itemWord, val = slice (input l) (start l) (pos (lexWord_loop U l))\<rparr>]"
proof (induction l rule: lexWord_loop_induct [where U = U])
  case (step l)
  show ?case
  proof (cases "absorbs U l")
    case True
    from step [OF True] True show ?thesis
      by (subst (1 2) lexWord_loop_step) simp
  next
    case False
    then show ?thesis
      by (subst (1 2) lexWord_loop_step) simp
  qed
qed

lemma acceptRun_unfold:
  "acceptRun valid l =
     (if 0 \<le> IndexRune valid (fst (next_rune l)) then acceptRun valid (snd (next_rune l))
      else backup (snd (next_rune l)))"
  by (subst acceptRun.simps) (simp add: case_prod_beta)

lemma acceptRun_induct [case_names step]:
  assumes "\<And>l. (0 \<le> IndexRune valid (fst (next_rune l)) \<Longrightarrow> P (snd (next_rune l))) \<Longrightarrow> P l"
  shows "P l"
proof -
  have "v = valid \<longrightarrow> P l" for v
  proof (induction v l rule: acceptRun.induct)
    case (1 v l)
    show ?case
    proof (rule impI, rule assms)
      assume "v = valid" and "0 \<le> IndexRune valid (fst (next_rune l))"
      then show "P (snd (next_rune l))"
        using "1" [of "next_rune l" "fst (next_rune l)" "snd (next_rune l)"]
        by (simp add: prod_eq_iff)
    qed
  qed
  then show ?thesis by simp
qed

lemma acceptRun_fields [simp]:
  "input (acceptRun valid l) = input l"
  "start (acceptRun valid l) = start l"
  "items (acceptRun valid l) = items l"
  "state (acceptRun valid l) = state l"
  by (induction l rule: acceptRun_induct [where valid = valid], subst acceptRun_unfold, simp)+

lemma acceptRun_pos:
  "pos l \<le> pos (acceptRun valid l) \<and> (pos l \<le> length (input l) \<longrightarrow> pos (acceptRun valid l) \<le> length (input l))"
proof (induction l rule: acceptRun_induct [where valid = valid])
  case (step l)
  show ?case
  proof (cases "0 \<le> IndexRune valid (fst (next_rune l))")
    case True
    from step [OF True] next_rune_mono [of l] next_rune_bound [of l] True show ?thesis
      by (subst (1 2) acceptRun_unfold) auto
  next
    case False
    then show ?thesis by (subst (1 2) acceptRun_unfold) simp
  qed
qed

lemma accept_fields [simp]:
  "input (snd (accept valid l)) = input l"
  "start (snd (accept valid l)) = start l"
  "items (snd (accept valid l)) = items l"
  "state (snd (accept valid l)) = state l"
  by (simp_all add: accept_def case_prod_beta)

lemma accept_pos:
  "pos l \<le> pos (snd (accept valid l)) \<and> (pos l \<le> length (input l) \<longrightarrow> pos (snd (accept valid l)) \<le> length (input l))"
  using next_rune_mono [of l] next_rune_bound [of l]
  by (simp add: accept_def case_prod_beta)

subsection \<open>One call of a state function\<close>

lemma next_rune_cong:
  "pos l = pos l' \<Longrightarrow> input l = input l' \<Longrightarrow>
     fst (next_rune l) = fst (next_rune l') \<and> pos (snd (next_rune l)) = pos (snd (next_rune l'))
     \<and> width (snd (next_rune l)) = width (snd (next_rune l'))"
  by (simp add: next_rune_def case_prod_beta)

lemma rune_of_eq [simp]: "rune_of c = rune_of d \<longleftrightarrow> c = d"
  by (simp add: rune_of_def)

lemma and_peek_other [simp]: "r \<noteq> rune_of c \<Longrightarrow> and_peek c r l = (False, l)"
  by (simp add: and_peek_def)

lemma and_peek_width:
  "r = rune_of c \<Longrightarrow> width (snd (and_peek c r l)) = width (snd (next_rune l))"
  by (simp add: and_peek_def case_prod_beta peek_def backup_def)

text \<open>
  The four tests \<open>r == c && l.peek() == c\<close> at the head of \<open>lexArticle\<close>: they
  leave everything but \<open>width\<close> as \<open>next\<close> left it.
\<close>

definition peeked :: "rune \<Rightarrow> lexer \<Rightarrow> lexer" where
  "peeked r l1 =
     snd (and_peek (CHR '']'') r (snd (and_peek (CHR ''['') r
       (snd (and_peek (CHR ''}'') r (snd (and_peek (CHR ''{'') r l1)))))))"

lemma peeked_fields [simp]:
  "input (peeked r l) = input l"
  "start (peeked r l) = start l"
  "items (peeked r l) = items l"
  "state (peeked r l) = state l"
  "pos (peeked r l) = pos l"
  by (simp_all add: peeked_def)

lemma peeked_other:
  "r \<noteq> rune_of (CHR ''{'') \<Longrightarrow> r \<noteq> rune_of (CHR ''}'') \<Longrightarrow> r \<noteq> rune_of (CHR ''['')
     \<Longrightarrow> r \<noteq> rune_of (CHR '']'') \<Longrightarrow> peeked r l = l"
  by (simp add: peeked_def)

lemma next_rune_width_update [simp]: "next_rune (l\<lparr>width := w\<rparr>) = next_rune l"
  by (simp add: next_rune_def)

lemma peek_eq: "peek l = (fst (next_rune l), l\<lparr>width := width (snd (next_rune l))\<rparr>)"
  by (simp add: peek_def backup_def next_rune_def case_prod_beta)

lemma and_peek_eq:
  "and_peek c r l =
     (r = rune_of c \<and> fst (next_rune l) = rune_of c,
      if r = rune_of c then l\<lparr>width := width (snd (next_rune l))\<rparr> else l)"
  by (simp add: and_peek_def peek_eq)

lemma peeked_eq: "peeked r l = l\<lparr>width := width (peeked r l)\<rparr>"
  by (simp add: peeked_def and_peek_eq)

lemma next_rune_peeked [simp]: "next_rune (peeked r l) = next_rune l"
  by (subst peeked_eq) simp

text \<open>\<open>lexArticle\<close> with the tests read off: the form the proofs below use.\<close>

lemma lexArticle_unfold:
  "lexArticle U l =
     (let r = fst (next_rune l); l1 = snd (next_rune l); p = fst (next_rune l1);
          l2 = snd (next_rune l1)
      in if r = eof then (None, emit itemEOF l1)
         else if r = rune_of (CHR ''{'') \<and> p = rune_of (CHR ''{'')
           then (Some LexArticle, emit itemLeftMeta l2)
         else if r = rune_of (CHR ''}'') \<and> p = rune_of (CHR ''}'')
           then (Some LexArticle, emit itemRightMeta l2)
         else if r = rune_of (CHR ''['') \<and> p = rune_of (CHR ''['')
           then (Some LexArticle, emit itemLeftTag l2)
         else if r = rune_of (CHR '']'') \<and> p = rune_of (CHR '']'')
           then (Some LexArticle, emit itemRightTag l2)
         else if r = rune_of (CHR 0x27) then (Some LexQuote, l1)
         else if r = rune_of (CHR ''<'') then (Some LexXML, backup l1)
         else if r = rune_of (CHR ''='') then (Some LexTitle, l1)
         else if isSpace r then (Some LexSpace, peeked r l1)
         else if IsMark U r \<or> IsSymbol U r \<or> IsPunct U r
           then (Some LexArticle, emit itemMark (peeked r l1))
         else if isAlphaNumeric U r then (Some LexWord, peeked r l1)
         else (Some LexArticle, peeked r l1))"
  by (simp add: lexArticle_def Let_def case_prod_beta and_peek_eq peeked_def)

lemma lexArticle_fields [simp]:
  "input (snd (lexArticle U l)) = input l"
  "state (snd (lexArticle U l)) = state l"
  by (simp_all add: lexArticle_unfold Let_def)

lemma lexArticle_bound:
  "pos l \<le> length (input l) \<Longrightarrow> pos (snd (lexArticle U l)) \<le> length (input l)"
  using next_rune_bound [of l] next_rune_bound [of "snd (next_rune l)"]
  by (simp add: lexArticle_unfold Let_def)

lemma lexArticle_progress:
  "fst (lexArticle U l) = None \<and> pos (snd (lexArticle U l)) = pos l
   \<or> pos l < length (input l) \<and>
      (fst (lexArticle U l) = Some LexXML \<and> pos (snd (lexArticle U l)) = pos l
       \<or> pos l < pos (snd (lexArticle U l)))"
proof (cases "fst (next_rune l) = eof")
  case True
  then have "length (input l) \<le> pos l" by (simp add: next_rune_eof)
  from next_rune_at_end [OF this] True show ?thesis
    by (simp add: lexArticle_unfold Let_def)
next
  case False
  then have lt: "pos l < length (input l)" by (simp add: next_rune_eof)
  from next_rune_width [OF lt] next_rune_pos [of l]
  have p: "pos l < pos (snd (next_rune l))" by simp
  with next_rune_mono [of "snd (next_rune l)"]
  have "pos l < pos (snd (next_rune (snd (next_rune l))))" by simp
  with p lt False show ?thesis
    by (simp add: lexArticle_unfold Let_def)
qed

lemma RawToken_Some: "RawToken U s = Some v \<Longrightarrow> v < length s"
  by (auto simp: RawToken_def split: list.splits option.splits)

lemma lexXML_Inr:
  assumes "lexXML U l = Inr (st, l')"
  shows "st = Some LexArticle \<and> input l' = input l \<and> state l' = state l
         \<and> pos l < pos l' \<and> pos l' \<le> length (input l) \<and> start l' = pos l'
         \<and> items l' = items l @ [\<lparr>typ = itemXML, val = slice (input l) (start l) (pos l')\<rparr>]"
proof -
  let ?rest = "drop (pos l) (input l)"
  from assms obtain v where v: "RawToken U ?rest = Some v"
    and l': "l' = emit itemXML (l\<lparr>pos := pos l + (length ?rest - v)\<rparr>)" and st: "st = Some LexArticle"
    by (auto simp: lexXML_def Let_def split: option.splits)
  from RawToken_Some [OF v] have "v < length (input l) - pos l" by simp
  then show ?thesis by (simp add: l' st emit_def)
qed

lemma lexNumber_fields [simp]:
  "input (snd (lexNumber U l)) = input l"
  "state (snd (lexNumber U l)) = state l"
  by (simp_all add: lexNumber_def Let_def case_prod_beta errorf_def)

lemma lexNumber_pos: "pos l \<le> pos (snd (lexNumber U l))"
proof -
  let ?l1 = "acceptRun ''0123456789'' l"
  let ?l2 = "snd (accept ''.'' ?l1)"
  let ?l3 = "if fst (accept ''.'' ?l1) then acceptRun ''0123456789'' ?l2 else ?l2"
  have "pos l \<le> pos ?l1" using acceptRun_pos by blast
  also have "pos ?l1 \<le> pos ?l2" using accept_pos by blast
  also have "pos ?l2 \<le> pos ?l3" using acceptRun_pos by simp
  finally have a: "pos l \<le> pos ?l3" .
  have b: "pos ?l3 \<le> pos (snd (next_rune (snd (peek ?l3))))" by (rule peek_next_mono)
  from a b show ?thesis
    by (simp add: lexNumber_def Let_def case_prod_beta errorf_def del: acceptRun_fields)
qed

definition rank :: "stateFn option \<Rightarrow> nat" where
  "rank st = (case st of None \<Rightarrow> 0 | Some LexXML \<Rightarrow> 0 | Some LexArticle \<Rightarrow> 1 | Some _ \<Rightarrow> 2)"

definition fuel :: "lexer \<Rightarrow> nat" where
  "fuel l = 3 * (length (input l) - pos l) + rank (state l)"

lemma call_state_decreases:
  assumes "call_state U f l = Inr (st, l')"
  shows "fuel (l'\<lparr>state := st\<rparr>) < fuel (l\<lparr>state := Some f\<rparr>)"
proof (cases f)
  case LexArticle
  with assms have r: "st = fst (lexArticle U l)" "l' = snd (lexArticle U l)"
    by (auto simp: call_state_def)
  have i: "input l' = input l" by (simp add: r)
  from lexArticle_progress [of U l]
  have "st = None \<and> pos l' = pos l
    \<or> pos l < length (input l) \<and> (st = Some LexXML \<and> pos l' = pos l \<or> pos l < pos l')"
    by (simp add: r)
  moreover have "rank st \<le> 2" "rank None = 0" "rank (Some LexXML) = 0" "rank (Some LexArticle) = 1"
    by (simp_all add: rank_def split: option.split stateFn.split)
  moreover have "fuel (l'\<lparr>state := st\<rparr>) = 3 * (length (input l) - pos l') + rank st"
    "fuel (l\<lparr>state := Some f\<rparr>) = 3 * (length (input l) - pos l) + rank (Some LexArticle)"
    by (simp_all add: fuel_def i LexArticle)
  ultimately show ?thesis
    by (elim disjE conjE) (simp, simp, linarith)
next
  case LexSpace
  with assms lexSpace_loop_pos [of l] show ?thesis
    by (auto simp: call_state_def lexSpace_def fuel_def rank_def)
next
  case LexWord
  with assms lexWord_loop_pos [of l U] show ?thesis
    by (auto simp: call_state_def lexWord_def fuel_def rank_def)
next
  case LexQuote
  with assms lexQuote_loop_pos [of l] show ?thesis
    by (auto simp: call_state_def lexQuote_def fuel_def rank_def)
next
  case LexTitle
  with assms lexTitle_loop_pos [of l] show ?thesis
    by (auto simp: call_state_def lexTitle_def fuel_def rank_def)
next
  case LexXML
  with assms have "lexXML U l = Inr (st, l')" by (simp add: call_state_def)
  from lexXML_Inr [OF this] show ?thesis
    by (auto simp: fuel_def rank_def LexXML)
next
  case LexNumber
  with assms have r: "st = fst (lexNumber U l)" "l' = snd (lexNumber U l)"
    by (auto simp: call_state_def)
  have "st = None \<or> st = Some LexArticle"
    by (simp add: r lexNumber_def Let_def case_prod_beta errorf_def)
  with lexNumber_pos [of l U] show ?thesis
    by (auto simp: r(2) fuel_def rank_def LexNumber)
qed

text \<open>
  \<open>run\<close>: the loop \<open>for l.state = lexArticle; l.state != nil; { l.state = l.state(l) }\<close>.
  It returns the lexer as the loop leaves it, with \<open>Some XMLPanic\<close> when \<open>lexXML\<close>
  panicked (the items sent before the panic are in \<open>items\<close>).
\<close>

function run_loop :: "env \<Rightarrow> lexer \<Rightarrow> lexer \<times> error option" where
  "run_loop U l =
     (case state l of
        None \<Rightarrow> (l, None)
      | Some f \<Rightarrow>
          (case call_state U f l of
             Inl e \<Rightarrow> (l, Some e)
           | Inr (st, l') \<Rightarrow> run_loop U (l'\<lparr>state := st\<rparr>)))"
  by pat_completeness auto
termination
proof (relation "measure (\<lambda>(U, l). fuel l)")
  show "wf (measure (\<lambda>(U, l). fuel l))" by simp
next
  fix U :: env and l :: lexer and f b x st l'
  assume s: "state l = Some f" and c: "call_state U f l = Inr b" and x: "(st, l') = b"
  from c x have "call_state U f l = Inr (st, l')" by simp
  from call_state_decreases [OF this] s
  show "((U, l'\<lparr>state := st\<rparr>), (U, l)) \<in> measure (\<lambda>(U, l). fuel l)"
    by (simp add: fuel_def)
qed

definition run :: "env \<Rightarrow> lexer \<Rightarrow> lexer \<times> error option" where
  "run U l = run_loop U (l\<lparr>state := Some LexArticle\<rparr>)"

declare run_loop.simps [simp del]

definition tokens :: "env \<Rightarrow> string \<Rightarrow> item list" where
  "tokens U inp = items (fst (run U (lex inp)))"

section \<open>The consumers of the item stream (main.go)\<close>

text \<open>
  \<open>nextItem\<close> receives the next item of the channel. For the consumers the lexer is the
  sequence of items still to come; on the empty sequence the receive never returns
  (the sender has finished or has panicked), which is \<open>None\<close>.
\<close>

definition nextItem :: "item list \<Rightarrow> (item \<times> item list) option" where
  "nextItem ss = (case ss of [] \<Rightarrow> None | s # rest \<Rightarrow> Some (s, rest))"

text \<open>
  \<open>depth_step\<close> is the body of \<open>parseBracket\<close>'s loop up to its test: the two
  \<open>if\<close>s that change \<open>depth\<close>. The loop returns the items it has not received.
\<close>

definition depth_step :: "itemType \<Rightarrow> itemType \<Rightarrow> int \<Rightarrow> item \<Rightarrow> int" where
  "depth_step left right depth s =
     (let depth1 = (if typ s = left then depth + 1 else depth)
      in if typ s = right then depth1 - 1 else depth1)"

fun parseBracket_loop :: "itemType \<Rightarrow> itemType \<Rightarrow> int \<Rightarrow> item list \<Rightarrow> item list option" where
  "parseBracket_loop left right depth [] = None"
| "parseBracket_loop left right depth (s # ss) =
     (if typ s = itemEOF then Some ss
      else
        let depth1 = depth_step left right depth s
        in if depth1 = 0 then Some ss else parseBracket_loop left right depth1 ss)"

definition parseBracket :: "itemType \<Rightarrow> itemType \<Rightarrow> item list \<Rightarrow> item list option" where
  "parseBracket left right ss = parseBracket_loop left right 1 ss"

fun parseLink_loop :: "item list \<Rightarrow> item list \<Rightarrow> (item list \<times> item list) option" where
  "parseLink_loop text [] = None"
| "parseLink_loop text (s # ss) =
     (if typ s = itemEOF then Some (text, ss)
      else
        let text1 = text @ [s];
            text2 = (if typ s = itemMark \<and> val s = ''|'' then [] else text1)
        in if typ s = itemRightTag then Some (text2, ss) else parseLink_loop text2 ss)"

definition parseLink :: "item list \<Rightarrow> (item list \<times> item list) option" where
  "parseLink ss = parseLink_loop [] ss"

fun parseTitle_loop :: "item list \<Rightarrow> item list \<Rightarrow> (item list \<times> item list) option" where
  "parseTitle_loop result [] = None"
| "parseTitle_loop result (s # ss) =
     (if typ s = itemEOF then Some (result, ss)
      else
        let result1 = result @ [s]
        in if typ s = itemTitle then Some (result1, ss) else parseTitle_loop result1 ss)"

definition parseTitle :: "int \<Rightarrow> item list \<Rightarrow> (item list \<times> item list) option" where
  "parseTitle level ss = parseTitle_loop [] ss"

text \<open>\<open>printElement\<close> writes to standard output; here it returns what it writes.\<close>

definition printElement :: "item \<Rightarrow> string" where
  "printElement elt =
     (if typ elt = itemWord \<or> typ elt = itemSpace \<or> typ elt = itemMark then val elt else [])"

definition render :: "item list \<Rightarrow> string" where
  "render elts = concat (map printElement elts)"

section \<open>An instance of the parameters\<close>

text \<open>
  For evaluating the lexer on ASCII lines: the general categories of the code points
  \<open>U+0000..U+007F\<close> as Unicode (and Go's tables) have them, and nothing beyond them.
  \<open>tag_scan\<close> reads up to the first \<open>>\<close> and fails when there is none; on the tags
  it is applied to below (\<open><a>\<close>, \<open><ref name="x"/>\<close>) and on a lone \<open><\<close> that is what
  Go's non-strict decoder does.
\<close>

definition ascii_letter :: "nat \<Rightarrow> bool" where
  "ascii_letter c = (0x41 \<le> c \<and> c \<le> 0x5A \<or> 0x61 \<le> c \<and> c \<le> 0x7A)"

definition ascii_digit :: "nat \<Rightarrow> bool" where
  "ascii_digit c = (0x30 \<le> c \<and> c \<le> 0x39)"

definition ascii_symbol :: "nat \<Rightarrow> bool" where
  "ascii_symbol c = (c \<in> {0x24, 0x2B, 0x3C, 0x3D, 0x3E, 0x5E, 0x60, 0x7C, 0x7E})"

definition ascii_punct :: "nat \<Rightarrow> bool" where
  "ascii_punct c =
     ((0x21 \<le> c \<and> c \<le> 0x2F \<or> 0x3A \<le> c \<and> c \<le> 0x40 \<or> 0x5B \<le> c \<and> c \<le> 0x60
        \<or> 0x7B \<le> c \<and> c \<le> 0x7E) \<and> \<not> ascii_symbol c)"

definition tag_scan :: "char \<Rightarrow> string \<Rightarrow> nat option" where
  "tag_scan b bs =
     (if CHR ''>'' \<in> set bs then Some (Suc (length (takeWhile (\<lambda>c. c \<noteq> CHR ''>'') bs)))
      else None)"

definition ascii_env :: env where
  "ascii_env =
     \<lparr>Letter = ascii_letter, Digit = ascii_digit, Mark = (\<lambda>c. False), Symbol = ascii_symbol,
      Punct = ascii_punct, xml_scan = tag_scan, sprintf_q = (\<lambda>s. CHR 0x22 # s @ [CHR 0x22])\<rparr>"

section \<open>Properties of the consumers\<close>



lemma parseBracket_loop_append:
  assumes "\<forall>t \<in> set ts. typ t \<noteq> itemEOF"
    and "\<forall>n. 1 \<le> n \<and> n \<le> length ts \<longrightarrow> foldl (depth_step left right) d (take n ts) \<noteq> 0"
  shows "parseBracket_loop left right d (ts @ rest)
         = parseBracket_loop left right (foldl (depth_step left right) d ts) rest"
  using assms
proof (induction ts arbitrary: d)
  case Nil
  then show ?case by simp
next
  case (Cons t ts)
  from Cons.prems(2) [rule_format, of 1] have nz: "depth_step left right d t \<noteq> 0" by simp
  have "\<forall>n. 1 \<le> n \<and> n \<le> length ts
          \<longrightarrow> foldl (depth_step left right) (depth_step left right d t) (take n ts) \<noteq> 0"
  proof (intro allI impI)
    fix n assume "1 \<le> n \<and> n \<le> length ts"
    with Cons.prems(2) [rule_format, of "Suc n"] show
      "foldl (depth_step left right) (depth_step left right d t) (take n ts) \<noteq> 0" by simp
  qed
  with Cons.IH [of "depth_step left right d t"] Cons.prems(1) nz show ?case by simp
qed

text \<open>
  Properly nested template brackets, as a grammar: items that are neither bracket nor
  end of input, a nested sequence between \<open>LeftMeta\<close> and \<open>RightMeta\<close>, and sequences of
  these.
\<close>

inductive nested :: "item list \<Rightarrow> bool" where
  nested_Nil: "nested []"
| nested_item: "typ t \<noteq> itemLeftMeta \<Longrightarrow> typ t \<noteq> itemRightMeta \<Longrightarrow> typ t \<noteq> itemEOF \<Longrightarrow> nested [t]"
| nested_pair: "typ a = itemLeftMeta \<Longrightarrow> typ b = itemRightMeta \<Longrightarrow> nested ts \<Longrightarrow> nested (a # ts @ [b])"
| nested_seq: "nested ts \<Longrightarrow> nested us \<Longrightarrow> nested (ts @ us)"

abbreviation meta_depth :: "int \<Rightarrow> item list \<Rightarrow> int" where
  "meta_depth d ts \<equiv> foldl (depth_step itemLeftMeta itemRightMeta) d ts"

lemma nested_no_eof: "nested ts \<Longrightarrow> \<forall>t \<in> set ts. typ t \<noteq> itemEOF"
  by (induction rule: nested.induct) auto

lemma nested_depth:
  "nested ts \<Longrightarrow> meta_depth d ts = d \<and> (\<forall>n. d \<le> meta_depth d (take n ts))"
proof (induction arbitrary: d rule: nested.induct)
  case nested_Nil
  then show ?case by simp
next
  case (nested_item t)
  then have s: "depth_step itemLeftMeta itemRightMeta d t = d"
    by (simp add: depth_step_def)
  then have "meta_depth d (take n [t]) = d" for n
    by (cases n) simp_all
  with s show ?case by simp
next
  case (nested_pair a b ts)
  have a: "depth_step itemLeftMeta itemRightMeta d a = d + 1"
    using nested_pair.hyps(1) by (simp add: depth_step_def)
  have b: "depth_step itemLeftMeta itemRightMeta e b = e - 1" for e
    using nested_pair.hyps(2) by (simp add: depth_step_def)
  from nested_pair.IH [of "d + 1"]
  have whole: "meta_depth (d + 1) ts = d + 1" and pre: "\<And>n. d + 1 \<le> meta_depth (d + 1) (take n ts)"
    by simp_all
  have "d \<le> meta_depth d (take n (a # ts @ [b]))" for n
  proof (cases n)
    case 0
    then show ?thesis by simp
  next
    case (Suc m)
    show ?thesis
    proof (cases "m \<le> length ts")
      case True
      with pre [of m] show ?thesis by (simp add: Suc a)
    next
      case False
      then show ?thesis by (simp add: Suc a b whole)
    qed
  qed
  then show ?case by (simp add: a b whole)
next
  case (nested_seq ts us)
  from nested_seq.IH(1) [of d] nested_seq.IH(2) [of d]
  have t: "meta_depth d ts = d" "\<And>n. d \<le> meta_depth d (take n ts)"
    and u: "meta_depth d us = d" "\<And>n. d \<le> meta_depth d (take n us)"
    by simp_all
  have "d \<le> meta_depth d (take n (ts @ us))" for n
  proof (cases "n \<le> length ts")
    case True
    with t(2) [of n] show ?thesis by simp
  next
    case False
    with u(2) [of "n - length ts"] show ?thesis by (simp add: t(1))
  qed
  then show ?case by (simp add: t(1) u(1))
qed

text \<open>
  C3. The bracket matcher starts at depth 1, adds one on \<open>LeftMeta\<close>, takes one off on
  \<open>RightMeta\<close>, and stops at end of input or as soon as the depth is 0. After a properly
  nested body and its closing \<open>RightMeta\<close> it has received exactly these items and none
  of the rest; the depth is 0 there and positive after every shorter prefix; if the
  closing bracket is missing, it stops at end of input.
\<close>

theorem parseBracket_nested:
  assumes "nested body" and "typ close = itemRightMeta"
  shows "parseBracket itemLeftMeta itemRightMeta (body @ close # rest) = Some rest
    \<and> meta_depth 1 (body @ [close]) = 0
    \<and> (\<forall>n \<le> length body. 0 < meta_depth 1 (take n body))
    \<and> (typ e = itemEOF \<longrightarrow> parseBracket itemLeftMeta itemRightMeta (body @ e # rest) = Some rest)
    \<and> (typ s = itemLeftMeta \<longrightarrow> depth_step itemLeftMeta itemRightMeta d s = d + 1)
    \<and> (typ s = itemRightMeta \<longrightarrow> depth_step itemLeftMeta itemRightMeta d s = d - 1)
    \<and> (typ s = itemEOF \<or> depth_step itemLeftMeta itemRightMeta d s = 0
          \<longrightarrow> parseBracket_loop itemLeftMeta itemRightMeta d (s # ss) = Some ss)"
proof -
  from nested_depth [OF assms(1), of 1]
  have whole: "meta_depth 1 body = 1" and pre: "\<And>n. 1 \<le> meta_depth 1 (take n body)"
    by simp_all
  have close: "depth_step itemLeftMeta itemRightMeta 1 close = 0"
    using assms(2) by (simp add: depth_step_def)
  have noeof: "\<forall>t \<in> set body. typ t \<noteq> itemEOF"
    using assms(1) by (rule nested_no_eof)
  have nz: "\<forall>n. 1 \<le> n \<and> n \<le> length body \<longrightarrow> meta_depth 1 (take n body) \<noteq> 0"
    using pre by (metis not_one_le_zero)
  have run: "parseBracket_loop itemLeftMeta itemRightMeta 1 (body @ xs)
        = parseBracket_loop itemLeftMeta itemRightMeta 1 xs" for xs
    using parseBracket_loop_append [OF noeof nz, of xs] by (simp add: whole)
  have 1: "parseBracket itemLeftMeta itemRightMeta (body @ close # rest) = Some rest"
    using assms(2) by (simp add: parseBracket_def run close)
  have 2: "meta_depth 1 (body @ [close]) = 0"
    by (simp add: whole close)
  have 3: "\<forall>n \<le> length body. 0 < meta_depth 1 (take n body)"
    using pre by (metis less_le_trans zero_less_one)
  have 4: "typ e = itemEOF \<longrightarrow> parseBracket itemLeftMeta itemRightMeta (body @ e # rest) = Some rest"
    by (simp add: parseBracket_def run)
  have 5: "typ s = itemLeftMeta \<longrightarrow> depth_step itemLeftMeta itemRightMeta d s = d + 1"
    "typ s = itemRightMeta \<longrightarrow> depth_step itemLeftMeta itemRightMeta d s = d - 1"
    by (simp_all add: depth_step_def)
  have 6: "typ s = itemEOF \<or> depth_step itemLeftMeta itemRightMeta d s = 0
          \<longrightarrow> parseBracket_loop itemLeftMeta itemRightMeta d (s # ss) = Some ss"
    by simp
  from 1 2 3 4 5 6 show ?thesis by blast
qed

text \<open>
  The line \<open>{{cite|a={{x}}|b}} after\<close>, behind its first \<open>{{\<close>: the matcher stops
  behind the second \<open>}}\<close>.
\<close>

theorem parseBracket_nested_witness:
  "nested [\<lparr>typ = itemWord, val = ''cite''\<rparr>, \<lparr>typ = itemMark, val = ''|''\<rparr>,
      \<lparr>typ = itemWord, val = ''a''\<rparr>, \<lparr>typ = itemTitle, val = ''=''\<rparr>,
      \<lparr>typ = itemLeftMeta, val = ''{{''\<rparr>, \<lparr>typ = itemWord, val = ''x''\<rparr>,
      \<lparr>typ = itemRightMeta, val = ''}}''\<rparr>, \<lparr>typ = itemMark, val = ''|''\<rparr>,
      \<lparr>typ = itemWord, val = ''b''\<rparr>]
   \<and> parseBracket itemLeftMeta itemRightMeta
       ([\<lparr>typ = itemWord, val = ''cite''\<rparr>, \<lparr>typ = itemMark, val = ''|''\<rparr>,
         \<lparr>typ = itemWord, val = ''a''\<rparr>, \<lparr>typ = itemTitle, val = ''=''\<rparr>,
         \<lparr>typ = itemLeftMeta, val = ''{{''\<rparr>, \<lparr>typ = itemWord, val = ''x''\<rparr>,
         \<lparr>typ = itemRightMeta, val = ''}}''\<rparr>, \<lparr>typ = itemMark, val = ''|''\<rparr>,
         \<lparr>typ = itemWord, val = ''b''\<rparr>]
        @ \<lparr>typ = itemRightMeta, val = ''}}''\<rparr>
        # [\<lparr>typ = itemSpace, val = '' ''\<rparr>, \<lparr>typ = itemWord, val = ''after''\<rparr>,
           \<lparr>typ = itemEOF, val = []\<rparr>])
     = Some [\<lparr>typ = itemSpace, val = '' ''\<rparr>, \<lparr>typ = itemWord, val = ''after''\<rparr>,
             \<lparr>typ = itemEOF, val = []\<rparr>]"
proof -
  let ?w = "\<lambda>s. \<lparr>typ = itemWord, val = s\<rparr>"
  let ?bar = "\<lparr>typ = itemMark, val = ''|''\<rparr>"
  let ?l = "\<lparr>typ = itemLeftMeta, val = ''{{''\<rparr>" and ?r = "\<lparr>typ = itemRightMeta, val = ''}}''\<rparr>"
  have i: "nested [?l, ?w ''x'', ?r]"
    using nested_pair [of ?l ?r "[?w ''x'']"] by (simp add: nested_item)
  have "nested ([?w ''cite''] @ [?bar] @ [?w ''a''] @ [\<lparr>typ = itemTitle, val = ''=''\<rparr>]
          @ [?l, ?w ''x'', ?r] @ [?bar] @ [?w ''b''])"
    by (intro nested_seq i nested_item) simp_all
  then have n: "nested [?w ''cite'', ?bar, ?w ''a'', \<lparr>typ = itemTitle, val = ''=''\<rparr>,
      ?l, ?w ''x'', ?r, ?bar, ?w ''b'']" by simp
  have h: "typ ?r = itemRightMeta" by simp
  let ?rest = "[\<lparr>typ = itemSpace, val = '' ''\<rparr>, ?w ''after'', \<lparr>typ = itemEOF, val = []\<rparr>]"
  from parseBracket_nested [OF n h, of ?rest]
  have "parseBracket itemLeftMeta itemRightMeta
     ([?w ''cite'', ?bar, ?w ''a'', \<lparr>typ = itemTitle, val = ''=''\<rparr>, ?l, ?w ''x'', ?r, ?bar,
       ?w ''b''] @ ?r # ?rest) = Some ?rest"
    by (rule conjunct1)
  with n show ?thesis by (rule conjI)
qed

text \<open>
  What the link extractor keeps of the items it has received: those behind the last
  \<open>Mark\<close> item with text \<open>|\<close>.
\<close>

definition is_pipe :: "item \<Rightarrow> bool" where
  "is_pipe s = (typ s = itemMark \<and> val s = ''|'')"

definition after_last_pipe :: "item list \<Rightarrow> item list" where
  "after_last_pipe ts = rev (takeWhile (\<lambda>s. \<not> is_pipe s) (rev ts))"

lemma after_last_pipe_snoc:
  "after_last_pipe (ts @ [s]) = (if is_pipe s then [] else after_last_pipe ts @ [s])"
  by (simp add: after_last_pipe_def)

lemma after_last_pipe_none: "\<forall>s \<in> set ts. \<not> is_pipe s \<Longrightarrow> after_last_pipe ts = ts"
proof -
  assume "\<forall>s \<in> set ts. \<not> is_pipe s"
  then have "takeWhile (\<lambda>s. \<not> is_pipe s) (rev ts) = rev ts"
    by (simp add: takeWhile_eq_all_conv)
  then show ?thesis by (simp only: after_last_pipe_def rev_rev_ident)
qed

lemma parseLink_loop_append:
  assumes "\<forall>s \<in> set pre. typ s \<noteq> itemEOF \<and> typ s \<noteq> itemRightTag"
  shows "parseLink_loop buf (pre @ rest)
         = parseLink_loop (if \<exists>s \<in> set pre. is_pipe s then after_last_pipe pre
                           else buf @ pre) rest"
  using assms
proof (induction pre arbitrary: buf rest rule: rev_induct)
  case Nil
  then show ?case by simp
next
  case (snoc s pre)
  have step: "parseLink_loop acc (s # rest)
      = parseLink_loop (if is_pipe s then [] else acc @ [s]) rest" for acc
    using snoc.prems by (simp add: is_pipe_def)
  from snoc.prems have p: "\<forall>s \<in> set pre. typ s \<noteq> itemEOF \<and> typ s \<noteq> itemRightTag" by simp
  let ?A = "if \<exists>s \<in> set pre. is_pipe s then after_last_pipe pre else buf @ pre"
  have "parseLink_loop buf ((pre @ [s]) @ rest) = parseLink_loop buf (pre @ s # rest)" by simp
  also have "\<dots> = parseLink_loop ?A (s # rest)" by (rule snoc.IH [OF p])
  also have "\<dots> = parseLink_loop (if is_pipe s then [] else ?A @ [s]) rest" by (rule step)
  also have "(if is_pipe s then [] else ?A @ [s])
      = (if \<exists>x \<in> set (pre @ [s]). is_pipe x then after_last_pipe (pre @ [s])
         else buf @ pre @ [s])"
    by (auto simp: after_last_pipe_snoc)
  finally show ?case .
qed

lemma parseLink_stop:
  assumes "\<forall>s \<in> set pre. typ s \<noteq> itemEOF \<and> typ s \<noteq> itemRightTag"
  shows "typ t = itemRightTag \<Longrightarrow> parseLink (pre @ t # rest) = Some (after_last_pipe pre @ [t], rest)"
    and "typ t = itemEOF \<Longrightarrow> parseLink (pre @ t # rest) = Some (after_last_pipe pre, rest)"
  using parseLink_loop_append [OF assms, of "[]" "t # rest"]
  by (auto simp: parseLink_def after_last_pipe_none)

lemma parseTitle_loop_append:
  assumes "\<forall>s \<in> set pre. typ s \<noteq> itemEOF \<and> typ s \<noteq> itemTitle"
  shows "parseTitle_loop result (pre @ rest) = parseTitle_loop (result @ pre) rest"
  using assms by (induction pre arbitrary: result) simp_all

lemma parseTitle_stop:
  assumes "\<forall>s \<in> set pre. typ s \<noteq> itemEOF \<and> typ s \<noteq> itemTitle"
  shows "typ t = itemTitle \<Longrightarrow> parseTitle level (pre @ t # rest) = Some (pre @ [t], rest)"
    and "typ t = itemEOF \<Longrightarrow> parseTitle level (pre @ t # rest) = Some (pre, rest)"
  using parseTitle_loop_append [OF assms, of "[]" "t # rest"]
  by (auto simp: parseTitle_def)

text \<open>
  C10. When the link extractor stops at a \<open>RightTag\<close>, that item is the last of the
  sequence it returns; when the title extractor stops at a \<open>Title\<close> item, that item is the
  last of the sequence it returns. (\<open>pre\<close> holds the items received before the
  terminator: the extractor has stopped on none of them.)
\<close>

theorem terminator_is_last:
  "((\<forall>s \<in> set pre. typ s \<noteq> itemEOF \<and> typ s \<noteq> itemRightTag) \<and> typ t = itemRightTag
      \<longrightarrow> (\<exists>res. parseLink (pre @ t # rest) = Some (res, rest) \<and> res \<noteq> [] \<and> last res = t))
   \<and> ((\<forall>s \<in> set pre. typ s \<noteq> itemEOF \<and> typ s \<noteq> itemTitle) \<and> typ t = itemTitle
      \<longrightarrow> (\<exists>res. parseTitle level (pre @ t # rest) = Some (res, rest) \<and> res \<noteq> [] \<and> last res = t))"
  by (simp add: parseLink_stop parseTitle_stop)

text \<open>The items of \<open>[[Paris|the City]] is\<close> behind \<open>[[\<close>, and of \<open>== History ==\<close> behind the first \<open>==\<close>.\<close>

theorem terminator_is_last_witness:
  "(\<exists>res. parseLink ([\<lparr>typ = itemWord, val = ''Paris''\<rparr>, \<lparr>typ = itemMark, val = ''|''\<rparr>,
        \<lparr>typ = itemWord, val = ''the''\<rparr>, \<lparr>typ = itemSpace, val = '' ''\<rparr>,
        \<lparr>typ = itemWord, val = ''City''\<rparr>] @ \<lparr>typ = itemRightTag, val = '']]''\<rparr>
        # [\<lparr>typ = itemSpace, val = '' ''\<rparr>, \<lparr>typ = itemWord, val = ''is''\<rparr>,
           \<lparr>typ = itemEOF, val = []\<rparr>])
      = Some (res, [\<lparr>typ = itemSpace, val = '' ''\<rparr>, \<lparr>typ = itemWord, val = ''is''\<rparr>,
           \<lparr>typ = itemEOF, val = []\<rparr>])
      \<and> res \<noteq> [] \<and> last res = \<lparr>typ = itemRightTag, val = '']]''\<rparr>)
   \<and> (\<exists>res. parseTitle 2 ([\<lparr>typ = itemSpace, val = '' ''\<rparr>, \<lparr>typ = itemWord, val = ''History''\<rparr>,
        \<lparr>typ = itemSpace, val = '' ''\<rparr>] @ \<lparr>typ = itemTitle, val = ''==''\<rparr>
        # [\<lparr>typ = itemEOF, val = []\<rparr>])
      = Some (res, [\<lparr>typ = itemEOF, val = []\<rparr>])
      \<and> res \<noteq> [] \<and> last res = \<lparr>typ = itemTitle, val = ''==''\<rparr>)"
proof -
  let ?pre = "[\<lparr>typ = itemWord, val = ''Paris''\<rparr>, \<lparr>typ = itemMark, val = ''|''\<rparr>,
        \<lparr>typ = itemWord, val = ''the''\<rparr>, \<lparr>typ = itemSpace, val = '' ''\<rparr>,
        \<lparr>typ = itemWord, val = ''City''\<rparr>]"
  let ?t = "\<lparr>typ = itemRightTag, val = '']]''\<rparr>"
  let ?pre' = "[\<lparr>typ = itemSpace, val = '' ''\<rparr>, \<lparr>typ = itemWord, val = ''History''\<rparr>,
        \<lparr>typ = itemSpace, val = '' ''\<rparr>]"
  let ?t' = "\<lparr>typ = itemTitle, val = ''==''\<rparr>"
  have h: "(\<forall>s \<in> set ?pre. typ s \<noteq> itemEOF \<and> typ s \<noteq> itemRightTag) \<and> typ ?t = itemRightTag"
    by simp
  have h': "(\<forall>s \<in> set ?pre'. typ s \<noteq> itemEOF \<and> typ s \<noteq> itemTitle) \<and> typ ?t' = itemTitle"
    by simp
  from terminator_is_last [THEN conjunct1, THEN mp, OF h]
    terminator_is_last [THEN conjunct2, THEN mp, OF h']
  show ?thesis by (rule conjI)
qed

section \<open>Invariants of the lexer\<close>

text \<open>
  What one call of a state function does to the lexer, for every state but \<open>lexNumber\<close>:
  it moves \<open>pos\<close> forward inside the input and sends at most one item, whose text is
  the pending segment \<open>input[start:pos]\<close>. \<open>sent l l' t\<close>: the call from \<open>l\<close> to \<open>l'\<close> has
  sent one item, of type \<open>t\<close>.
\<close>

definition sent :: "lexer \<Rightarrow> lexer \<Rightarrow> itemType \<Rightarrow> bool" where
  "sent l l' t =
     (items l' = items l @ [\<lparr>typ = t, val = slice (input l) (start l) (pos l')\<rparr>]
      \<and> start l' = pos l')"

definition silent :: "lexer \<Rightarrow> lexer \<Rightarrow> bool" where
  "silent l l' = (items l' = items l \<and> start l' = start l)"

lemma sent_emit: "sent l (emit t l1) t"
  if "items l1 = items l" "start l1 = start l" "input l1 = input l"
  using that by (simp add: sent_def)

lemma lexArticle_step:
  assumes "lexArticle U l = (st, l')" "pos l \<le> length (input l)"
  shows "input l' = input l \<and> state l' = state l \<and> pos l \<le> pos l' \<and> pos l' \<le> length (input l)
    \<and> st \<noteq> Some LexNumber
    \<and> (st = Some LexXML \<longrightarrow> CHR ''<'' \<in> set (input l) \<and> pos l' = pos l)
    \<and> (if st = None then sent l l' itemEOF \<and> pos l' = length (input l)
        else silent l l'
          \<or> st = Some LexArticle
            \<and> (\<exists>t. sent l l' t \<and> t \<noteq> itemEOF \<and> t \<noteq> itemError \<and> t \<noteq> itemNumber))"
proof -
  let ?r = "fst (next_rune l)" and ?l1 = "snd (next_rune l)"
  let ?l2 = "snd (next_rune ?l1)"
  from assms(1) have st: "st = fst (lexArticle U l)" and l': "l' = snd (lexArticle U l)"
    by simp_all
  have b1: "pos l \<le> pos ?l1" "pos ?l1 \<le> length (input l)"
    using next_rune_mono [of l] next_rune_bound [OF assms(2)] by simp_all
  have b2: "pos l \<le> pos ?l2" "pos ?l2 \<le> length (input l)"
    using next_rune_mono [of ?l1] next_rune_bound [of ?l1] b1 by simp_all
  have lt: "CHR ''<'' \<in> set (input l)" if "?r = rune_of (CHR ''<'')"
  proof -
    from that have "fst (next_rune l) = 60" by (simp add: rune_of_def)
    from next_rune_ascii [OF this] have "pos l < length (input l)" "byte (input l) (pos l) = 60"
      by simp_all
    then have "input l ! pos l = CHR ''<''" "pos l < length (input l)"
      by (simp_all add: byte_def of_char_eq_iff [symmetric, where ?'a = nat] del: of_char_eq_iff)
    then show ?thesis by (metis nth_mem)
  qed
  show ?thesis
  proof (cases "?r = eof")
    case True
    then have e: "length (input l) \<le> pos l" by (simp add: next_rune_eof)
    with assms(2) have "pos l = length (input l)" by simp
    with True next_rune_at_end [OF e] show ?thesis
      by (simp add: st l' lexArticle_unfold Let_def sent_def)
  next
    case False
    with b1 b2 lt show ?thesis
      by (simp add: st l' lexArticle_unfold Let_def sent_def silent_def)
  qed
qed

lemma call_state_step:
  assumes "call_state U f l = Inr (st, l')" "pos l \<le> length (input l)" "f \<noteq> LexNumber"
  shows "input l' = input l \<and> state l' = state l \<and> pos l \<le> pos l' \<and> pos l' \<le> length (input l)
    \<and> st \<noteq> Some LexNumber
    \<and> (st = Some LexXML \<longrightarrow> CHR ''<'' \<in> set (input l))
    \<and> (if st = None then sent l l' itemEOF \<and> pos l' = length (input l)
        else silent l l'
          \<or> st = Some LexArticle
            \<and> (\<exists>t. sent l l' t \<and> t \<noteq> itemEOF \<and> t \<noteq> itemError \<and> t \<noteq> itemNumber))"
proof (cases f)
  case LexArticle
  with assms(1) have "lexArticle U l = (st, l')" by (simp add: call_state_def)
  from lexArticle_step [OF this assms(2)] show ?thesis by simp
next
  case LexSpace
  with assms(1) have "st = Some LexArticle" "l' = emit itemSpace (lexSpace_loop l)"
    by (simp_all add: call_state_def lexSpace_def)
  with lexSpace_loop_pos [of l] assms(2) show ?thesis by (simp add: sent_def)
next
  case LexWord
  with assms(1) have "st = Some LexArticle" "l' = lexWord_loop U l"
    by (simp_all add: call_state_def lexWord_def)
  with lexWord_loop_pos [of l U] lexWord_loop_items [of U l] assms(2) show ?thesis
    by (simp add: sent_def)
next
  case LexQuote
  with assms(1) have "st = Some LexArticle" "l' = emit itemQuote (lexQuote_loop l)"
    by (simp_all add: call_state_def lexQuote_def)
  with lexQuote_loop_pos [of l] assms(2) show ?thesis by (simp add: sent_def)
next
  case LexTitle
  with assms(1) have "st = Some LexArticle" "l' = emit itemTitle (lexTitle_loop l)"
    by (simp_all add: call_state_def lexTitle_def)
  with lexTitle_loop_pos [of l] assms(2) show ?thesis by (simp add: sent_def)
next
  case LexXML
  with assms(1) have "lexXML U l = Inr (st, l')" by (simp add: call_state_def)
  from lexXML_Inr [OF this] show ?thesis by (simp add: sent_def)
next
  case LexNumber
  with assms(3) show ?thesis by simp
qed

lemma slice_append:
  "s \<le> p \<Longrightarrow> p \<le> q \<Longrightarrow> slice xs s p @ slice xs p q = slice xs s q"
proof -
  assume a: "s \<le> p" "p \<le> q"
  then have "take (q - s) (drop s xs) = take (p - s) (drop s xs) @ take (q - p) (drop (p - s) (drop s xs))"
    using take_add [of "p - s" "q - p" "drop s xs"] by simp
  with a show ?thesis by (simp add: slice_def)
qed

lemma slice_same [simp]: "slice xs s s = []"
  by (simp add: slice_def)

lemma slice_to_end: "slice xs s (length xs) = drop s xs"
  by (simp add: slice_def)

text \<open>
  The loop as a whole, from any state but \<open>lexNumber\<close>: the items it sends (\<open>new\<close>) are
  never \<open>Error\<close> or \<open>Number\<close>, and their texts are, in order, the input from \<open>start\<close> to
  the last \<open>start\<close>; the text of the first begins at \<open>start\<close> and reaches \<open>pos\<close> or
  further; when the loop ends without a panic the last item is the only \<open>EOF\<close> item and
  the input is used up; it panics only on a \<open><\<close>, and then it has sent no \<open>EOF\<close> item.
\<close>

lemma run_loop_spec:
  assumes "start l \<le> pos l" "pos l \<le> length (input l)" "state l \<noteq> Some LexNumber"
    and "run_loop U l = (l', e)"
  shows "input l' = input l \<and> start l \<le> start l' \<and> start l' \<le> length (input l) \<and>
    (\<exists>new. items l' = items l @ new
       \<and> (\<forall>t \<in> set new. typ t \<noteq> itemError \<and> typ t \<noteq> itemNumber)
       \<and> concat (map val new) = slice (input l) (start l) (start l')
       \<and> (new \<noteq> [] \<longrightarrow>
             (\<exists>q. pos l \<le> q \<and> q \<le> length (input l) \<and> val (hd new) = slice (input l) (start l) q))
       \<and> (e = None \<and> state l \<noteq> None \<longrightarrow>
             new \<noteq> [] \<and> typ (last new) = itemEOF \<and> (\<forall>t \<in> set (butlast new). typ t \<noteq> itemEOF)
             \<and> start l' = length (input l))
       \<and> (e \<noteq> None \<longrightarrow> e = Some XMLPanic \<and> (\<forall>t \<in> set new. typ t \<noteq> itemEOF)
             \<and> (state l = Some LexXML \<or> CHR ''<'' \<in> set (input l))))"
  using assms
proof (induction U l arbitrary: l' e rule: run_loop.induct)
  case (1 U l)
  show ?case
  proof (cases "state l")
    case None
    with "1.prems" show ?thesis by (simp add: run_loop.simps)
  next
    case (Some f)
    with "1.prems"(3) have fn: "f \<noteq> LexNumber" by simp
    show ?thesis
    proof (cases "call_state U f l")
      case (Inl err)
      with Some "1.prems"(4) have "l' = l" "e = Some err" by (simp_all add: run_loop.simps)
      moreover have "err = XMLPanic" by (cases err) simp
      moreover from Inl have "f = LexXML" by (cases f) (simp_all add: call_state_def)
      ultimately show ?thesis using Some "1.prems"(1,2) by simp
    next
      case (Inr b)
      obtain st l1 where b: "b = (st, l1)" by (cases b)
      with Inr have c: "call_state U f l = Inr (st, l1)" by simp
      note s = call_state_step [OF c "1.prems"(2) fn]
      let ?l2 = "l1\<lparr>state := st\<rparr>"
      from Some c "1.prems"(4) have r: "run_loop U ?l2 = (l', e)"
        by (simp add: run_loop.simps)
      from s have i: "input l1 = input l" and p: "pos l \<le> pos l1" "pos l1 \<le> length (input l)"
        and sn: "st \<noteq> Some LexNumber" by simp_all
      have st1: "start l1 \<le> pos l1" "start l \<le> start l1"
        using s p "1.prems"(1) by (auto simp: sent_def silent_def split: if_splits)
      from "1.IH" [OF Some Inr b [symmetric] _ _ _ r] st1 p sn i
      obtain new where ih: "input l' = input l" "items l' = items l1 @ new"
        "\<forall>t \<in> set new. typ t \<noteq> itemError \<and> typ t \<noteq> itemNumber"
        "e = None \<and> st \<noteq> None \<longrightarrow>
             new \<noteq> [] \<and> typ (last new) = itemEOF \<and> (\<forall>t \<in> set (butlast new). typ t \<noteq> itemEOF)
             \<and> start l' = length (input l)"
        "e \<noteq> None \<longrightarrow> e = Some XMLPanic \<and> (\<forall>t \<in> set new. typ t \<noteq> itemEOF)
             \<and> (st = Some LexXML \<or> CHR ''<'' \<in> set (input l))"
        "start l1 \<le> start l'" "start l' \<le> length (input l)"
        "concat (map val new) = slice (input l) (start l1) (start l')"
        "new \<noteq> [] \<longrightarrow>
             (\<exists>q. pos l1 \<le> q \<and> q \<le> length (input l) \<and> val (hd new) = slice (input l) (start l1) q)"
        by auto
      have x: "e \<noteq> None \<longrightarrow> CHR ''<'' \<in> set (input l)"
        using ih(5) s by blast
      show ?thesis
      proof (cases "st = None")
        case True
        with r have "l' = ?l2" "e = None" by (simp_all add: run_loop.simps)
        with s True Some i "1.prems"(1,2) show ?thesis
          by (auto simp: sent_def)
      next
        case False
        with s consider (quiet) "silent l l1"
          | (item) t where "sent l l1 t" "t \<noteq> itemEOF" "t \<noteq> itemError" "t \<noteq> itemNumber"
            "st = Some LexArticle"
          by auto
        then show ?thesis
        proof cases
          case quiet
          then have q: "items l1 = items l" "start l1 = start l" by (simp_all add: silent_def)
          have "new \<noteq> [] \<longrightarrow>
             (\<exists>q. pos l \<le> q \<and> q \<le> length (input l) \<and> val (hd new) = slice (input l) (start l) q)"
            using ih(9) p(1) by (auto simp: q intro: order_trans)
          with ih x False show ?thesis by (simp add: q)
        next
          case item
          let ?t = "\<lparr>typ = t, val = slice (input l) (start l) (pos l1)\<rparr>"
          from item(1) have it: "items l1 = items l @ [?t]" and s1: "start l1 = pos l1"
            by (simp_all add: sent_def)
          have cc: "slice (input l) (start l) (pos l1) @ slice (input l) (pos l1) (start l')
             = slice (input l) (start l) (start l')"
            using "1.prems"(1) p ih(6) by (intro slice_append) (simp_all add: s1)
          have "items l' = items l @ (?t # new)" by (simp add: ih(2) it)
          moreover have "\<forall>u \<in> set (?t # new). typ u \<noteq> itemError \<and> typ u \<noteq> itemNumber"
            using ih(3) item by simp
          moreover have "concat (map val (?t # new)) = slice (input l) (start l) (start l')"
            using ih(8) cc by (simp add: s1)
          moreover have "?t # new \<noteq> [] \<longrightarrow>
             (\<exists>q. pos l \<le> q \<and> q \<le> length (input l)
                \<and> val (hd (?t # new)) = slice (input l) (start l) q)"
            using p by auto
          moreover have "e = None \<and> state l \<noteq> None \<longrightarrow>
             ?t # new \<noteq> [] \<and> typ (last (?t # new)) = itemEOF
             \<and> (\<forall>u \<in> set (butlast (?t # new)). typ u \<noteq> itemEOF)
             \<and> start l' = length (input l)"
            using ih(4) False item(2) by auto
          moreover have "e \<noteq> None \<longrightarrow> e = Some XMLPanic \<and> (\<forall>u \<in> set (?t # new). typ u \<noteq> itemEOF)
             \<and> (state l = Some LexXML \<or> CHR ''<'' \<in> set (input l))"
            using ih(5) x item(2) by simp
          ultimately show ?thesis using ih(1,6,7) st1(2) by (intro conjI exI [of _ "?t # new"]) simp_all
        qed
      qed
    qed
  qed
qed

section \<open>The token stream of a line\<close>

lemma run_lex_spec:
  assumes "run U (lex inp) = (l', e)"
  shows "input l' = inp \<and> start l' \<le> length inp
    \<and> (\<forall>t \<in> set (items l'). typ t \<noteq> itemError \<and> typ t \<noteq> itemNumber)
    \<and> concat (map val (items l')) = take (start l') inp
    \<and> (e = None \<longrightarrow> items l' \<noteq> [] \<and> typ (last (items l')) = itemEOF
          \<and> (\<forall>t \<in> set (butlast (items l')). typ t \<noteq> itemEOF) \<and> start l' = length inp)
    \<and> (e \<noteq> None \<longrightarrow> e = Some XMLPanic \<and> (\<forall>t \<in> set (items l'). typ t \<noteq> itemEOF)
          \<and> CHR ''<'' \<in> set inp)"
proof -
  let ?l = "(lex inp)\<lparr>state := Some LexArticle\<rparr>"
  from assms have r: "run_loop U ?l = (l', e)" by (simp add: run_def)
  have "start ?l \<le> pos ?l" "pos ?l \<le> length (input ?l)" "state ?l \<noteq> Some LexNumber"
    by (simp_all add: lex_def)
  from run_loop_spec [OF this r] show ?thesis
    by (auto simp: lex_def slice_def)
qed

lemma next_state_not_number:
  assumes "f \<noteq> LexNumber" "call_state U f l = Inr (st, l')"
  shows "st \<noteq> Some LexNumber"
proof (cases f)
  case LexArticle
  with assms(2) have "st = fst (lexArticle U l)" by (auto simp: call_state_def)
  then show ?thesis by (simp add: lexArticle_unfold Let_def)
next
  case LexXML
  with assms(2) have "lexXML U l = Inr (st, l')" by (simp add: call_state_def)
  from lexXML_Inr [OF this] show ?thesis by simp
qed (use assms in \<open>auto simp: call_state_def lexSpace_def lexWord_def lexQuote_def lexTitle_def\<close>)

text \<open>
  C7. The numeric routine is never reached: the loop starts in \<open>lexArticle\<close>, no state
  function other than \<open>lexNumber\<close> itself returns \<open>lexNumber\<close> as the next state, and
  on every input line no item sent is a \<open>Number\<close> or an \<open>Error\<close> item (also on a line
  that ends in the XML panic).
\<close>

theorem never_number_or_error:
  "(\<forall>t \<in> set (tokens U inp). typ t \<noteq> itemNumber \<and> typ t \<noteq> itemError)
   \<and> (f \<noteq> LexNumber \<and> call_state U f l = Inr (st, l') \<longrightarrow> st \<noteq> Some LexNumber)
   \<and> state (lex inp) = Some LexArticle"
proof -
  obtain lr e where r: "run U (lex inp) = (lr, e)" by (cases "run U (lex inp)")
  from run_lex_spec [OF r] have a: "\<forall>t \<in> set (tokens U inp). typ t \<noteq> itemNumber \<and> typ t \<noteq> itemError"
    by (simp add: tokens_def r)
  have b: "f \<noteq> LexNumber \<and> call_state U f l = Inr (st, l') \<longrightarrow> st \<noteq> Some LexNumber"
  proof (intro impI, elim conjE)
    assume "f \<noteq> LexNumber" "call_state U f l = Inr (st, l')"
    then show "st \<noteq> Some LexNumber" by (rule next_state_not_number)
  qed
  have c: "state (lex inp) = Some LexArticle" by (simp add: lex_def)
  from a b c show ?thesis by (intro conjI)
qed

text \<open>
  On \<open>12.5x\<close> the numeric routine, were it called, would send an \<open>Error\<close> item; the lexer
  sends \<open>Word\<close> and \<open>Mark\<close> items.
\<close>

theorem never_number_or_error_witness:
  "tokens ascii_env ''12.5x''
     = [\<lparr>typ = itemWord, val = ''12''\<rparr>, \<lparr>typ = itemMark, val = ''.''\<rparr>,
        \<lparr>typ = itemWord, val = ''5x''\<rparr>, \<lparr>typ = itemEOF, val = []\<rparr>]
   \<and> (typ \<lparr>typ = itemWord, val = ''12''\<rparr> \<noteq> itemNumber \<and> typ \<lparr>typ = itemWord, val = ''12''\<rparr> \<noteq> itemError)
   \<and> fst (lexArticle ascii_env (lex ''12.5x'')) \<noteq> Some LexNumber
   \<and> typ (hd (items (snd (lexNumber ascii_env (lex ''12.5x''))))) = itemError"
proof -
  have t: "tokens ascii_env ''12.5x''
     = [\<lparr>typ = itemWord, val = ''12''\<rparr>, \<lparr>typ = itemMark, val = ''.''\<rparr>,
        \<lparr>typ = itemWord, val = ''5x''\<rparr>, \<lparr>typ = itemEOF, val = []\<rparr>]"
    by code_simp
  then have m: "\<lparr>typ = itemWord, val = ''12''\<rparr> \<in> set (tokens ascii_env ''12.5x'')" by simp
  note a = never_number_or_error [THEN conjunct1, THEN bspec, OF m]
  have c: "LexArticle \<noteq> LexNumber \<and>
      call_state ascii_env LexArticle (lex ''12.5x'')
        = Inr (fst (lexArticle ascii_env (lex ''12.5x'')), snd (lexArticle ascii_env (lex ''12.5x'')))"
    by (simp add: call_state_def)
  note b = never_number_or_error [THEN conjunct2, THEN conjunct1, THEN mp, OF c]
  have d: "typ (hd (items (snd (lexNumber ascii_env (lex ''12.5x''))))) = itemError"
    by code_simp
  from t a b d show ?thesis by blast
qed

text \<open>
  C1, as the code has it. A line on which no XML parse fails (every line without \<open><\<close>
  is one) gives a stream that ends in an \<open>EOF\<close> item, its only one, and holds no
  \<open>Error\<close> item. When \<open>lexXML\<close> panics the stream has neither: the claim's "never neither"
  fails there.
\<close>

theorem stream_ends_in_eof:
  "(snd (run U (lex inp)) = None \<longrightarrow>
      tokens U inp \<noteq> [] \<and> typ (last (tokens U inp)) = itemEOF
      \<and> (\<forall>t \<in> set (butlast (tokens U inp)). typ t \<noteq> itemEOF)
      \<and> (\<forall>t \<in> set (tokens U inp). typ t \<noteq> itemError))
   \<and> (CHR ''<'' \<notin> set inp \<longrightarrow> snd (run U (lex inp)) = None)
   \<and> (snd (run U (lex inp)) \<noteq> None \<longrightarrow>
      snd (run U (lex inp)) = Some XMLPanic
      \<and> (\<forall>t \<in> set (tokens U inp). typ t \<noteq> itemEOF \<and> typ t \<noteq> itemError))"
proof -
  obtain l' e where r: "run U (lex inp) = (l', e)" by (cases "run U (lex inp)")
  from run_lex_spec [OF r] show ?thesis
    by (auto simp: tokens_def r)
qed

theorem stream_ends_in_eof_witness:
  "snd (run ascii_env (lex ''hello world'')) = None
   \<and> CHR ''<'' \<notin> set ''hello world''
   \<and> tokens ascii_env ''hello world'' \<noteq> []
   \<and> typ (last (tokens ascii_env ''hello world'')) = itemEOF
   \<and> tokens ascii_env ''hello world''
       = [\<lparr>typ = itemWord, val = ''hello''\<rparr>, \<lparr>typ = itemSpace, val = '' ''\<rparr>,
          \<lparr>typ = itemWord, val = ''world''\<rparr>, \<lparr>typ = itemEOF, val = []\<rparr>]"
proof -
  have n: "CHR ''<'' \<notin> set ''hello world''" by simp
  note f = stream_ends_in_eof [THEN conjunct2, THEN conjunct1, THEN mp, OF n]
  note g = stream_ends_in_eof [THEN conjunct1, THEN mp, OF f]
  have t: "tokens ascii_env ''hello world''
       = [\<lparr>typ = itemWord, val = ''hello''\<rparr>, \<lparr>typ = itemSpace, val = '' ''\<rparr>,
          \<lparr>typ = itemWord, val = ''world''\<rparr>, \<lparr>typ = itemEOF, val = []\<rparr>]"
    by code_simp
  from f n g [THEN conjunct1] g [THEN conjunct2, THEN conjunct1] t show ?thesis
    by (intro conjI)
qed

text \<open>
  The line \<open><\<close>: the XML reader finds no token, \<open>lexXML\<close> panics, and no item at all
  has been sent.
\<close>

theorem stream_ends_in_eof_counterexample:
  "snd (run ascii_env (lex ''<'')) = Some XMLPanic \<and> tokens ascii_env ''<'' = []"
  by code_simp

text \<open>
  C9. On a line the lexer finishes, the texts of the items, in the order sent and with
  the text of the \<open>EOF\<close> item, are the line. (On a line that ends in the panic they are
  the line up to the last item sent.)
\<close>

theorem texts_are_the_line:
  "(snd (run U (lex inp)) = None \<longrightarrow> concat (map val (tokens U inp)) = inp)
   \<and> (\<exists>rest. inp = concat (map val (tokens U inp)) @ rest)"
proof -
  obtain l' e where r: "run U (lex inp) = (l', e)" by (cases "run U (lex inp)")
  from run_lex_spec [OF r]
  have c: "concat (map val (items l')) = take (start l') inp"
    and f: "e = None \<longrightarrow> start l' = length inp" by simp_all
  from c have "inp = concat (map val (items l')) @ drop (start l') inp" by simp
  then have "\<exists>rest. inp = concat (map val (tokens U inp)) @ rest"
    unfolding tokens_def r fst_conv by (rule exI)
  moreover from c f have "snd (run U (lex inp)) = None \<longrightarrow> concat (map val (tokens U inp)) = inp"
    by (simp add: tokens_def r)
  ultimately show ?thesis by (rule conjI [rotated])
qed

text \<open>A line that ends in a character no rule matches: it is the text of the \<open>EOF\<close> item.\<close>

theorem texts_are_the_line_witness:
  "snd (run ascii_env (lex [CHR ''a'', CHR '' '', CHR 0x01])) = None
   \<and> tokens ascii_env [CHR ''a'', CHR '' '', CHR 0x01]
       = [\<lparr>typ = itemWord, val = ''a''\<rparr>, \<lparr>typ = itemSpace, val = '' ''\<rparr>,
          \<lparr>typ = itemEOF, val = [CHR 0x01]\<rparr>]
   \<and> concat (map val (tokens ascii_env [CHR ''a'', CHR '' '', CHR 0x01]))
       = [CHR ''a'', CHR '' '', CHR 0x01]"
proof -
  have f: "snd (run ascii_env (lex [CHR ''a'', CHR '' '', CHR 0x01])) = None" by code_simp
  have t: "tokens ascii_env [CHR ''a'', CHR '' '', CHR 0x01]
       = [\<lparr>typ = itemWord, val = ''a''\<rparr>, \<lparr>typ = itemSpace, val = '' ''\<rparr>,
          \<lparr>typ = itemEOF, val = [CHR 0x01]\<rparr>]" by code_simp
  from f t texts_are_the_line [THEN conjunct1, THEN mp, OF f] show ?thesis
    by (intro conjI)
qed

section \<open>Characters no rule matches, and inline XML\<close>

text \<open>
  \<open>no_rule U l\<close>: the rune at \<open>pos\<close> matches none of the dispatch rules 1 to 11 (it is
  not the end of the line, not the first of two equal braces or brackets, not an
  apostrophe, \<open><\<close>, \<open>=\<close>, space or tab, not a mark, symbol or punctuation, and not a
  letter, digit or underscore).
\<close>

definition no_rule :: "env \<Rightarrow> lexer \<Rightarrow> bool" where
  "no_rule U l =
     (let r = fst (next_rune l); p = fst (next_rune (snd (next_rune l)))
      in r \<noteq> eof
         \<and> \<not> (r = rune_of (CHR ''{'') \<and> p = rune_of (CHR ''{''))
         \<and> \<not> (r = rune_of (CHR ''}'') \<and> p = rune_of (CHR ''}''))
         \<and> \<not> (r = rune_of (CHR ''['') \<and> p = rune_of (CHR ''[''))
         \<and> \<not> (r = rune_of (CHR '']'') \<and> p = rune_of (CHR '']''))
         \<and> r \<noteq> rune_of (CHR 0x27) \<and> r \<noteq> rune_of (CHR ''<'') \<and> r \<noteq> rune_of (CHR ''='')
         \<and> \<not> isSpace r
         \<and> \<not> (IsMark U r \<or> IsSymbol U r \<or> IsPunct U r)
         \<and> \<not> isAlphaNumeric U r)"

lemma lexArticle_no_rule:
  assumes "no_rule U l"
  shows "lexArticle U l = (Some LexArticle, peeked (fst (next_rune l)) (snd (next_rune l)))"
    and "pos l < pos (snd (next_rune l))" and "pos l < length (input l)"
proof -
  from assms have ne: "fst (next_rune l) \<noteq> eof" by (simp add: no_rule_def Let_def)
  then show lt: "pos l < length (input l)" by (simp add: next_rune_eof)
  from next_rune_width [OF lt] next_rune_pos [of l] show "pos l < pos (snd (next_rune l))" by simp
  from assms show "lexArticle U l = (Some LexArticle, peeked (fst (next_rune l)) (snd (next_rune l)))"
    by (auto simp: no_rule_def lexArticle_unfold Let_def)
qed

text \<open>
  C2, as the code has it. A character that no rule matches gives no item of its own,
  and nothing discards it (\<open>ignore\<close> is never called): \<open>start\<close> stays, \<open>pos\<close> moves
  behind the character, and the next item sent has the text \<open>input[start:q]\<close> with
  \<open>q\<close> behind the character, which is therefore part of that text. Unless the run
  panics there is a next item.
\<close>

theorem unmatched_stays_pending:
  "no_rule U l \<and> start l \<le> pos l \<and> pos l \<le> length (input l) \<longrightarrow>
     (\<exists>l1. lexArticle U l = (Some LexArticle, l1)
        \<and> items l1 = items l \<and> start l1 = start l \<and> input l1 = input l
        \<and> pos l < pos l1 \<and> pos l1 \<le> length (input l)
        \<and> (\<forall>l' e. run_loop U (l1\<lparr>state := Some LexArticle\<rparr>) = (l', e) \<longrightarrow>
              (\<exists>new. items l' = items l @ new
                 \<and> (e = None \<longrightarrow> new \<noteq> [])
                 \<and> (new \<noteq> [] \<longrightarrow>
                       (\<exists>q. pos l1 \<le> q \<and> q \<le> length (input l)
                          \<and> val (hd new) = slice (input l) (start l) q)))))"
proof (intro impI, elim conjE)
  assume n: "no_rule U l" and s: "start l \<le> pos l" and p: "pos l \<le> length (input l)"
  let ?l1 = "peeked (fst (next_rune l)) (snd (next_rune l))"
  let ?l2 = "?l1\<lparr>state := Some LexArticle\<rparr>"
  note a = lexArticle_no_rule [OF n]
  have b: "pos ?l1 \<le> length (input l)" using next_rune_bound [OF p] by simp
  have r: "\<exists>new. items l' = items l @ new
                 \<and> (e = None \<longrightarrow> new \<noteq> [])
                 \<and> (new \<noteq> [] \<longrightarrow>
                       (\<exists>q. pos ?l1 \<le> q \<and> q \<le> length (input l)
                          \<and> val (hd new) = slice (input l) (start l) q))"
    if run: "run_loop U ?l2 = (l', e)" for l' e
  proof -
    have "start ?l2 \<le> pos ?l2" "pos ?l2 \<le> length (input ?l2)" "state ?l2 \<noteq> Some LexNumber"
      using s a(2) b by simp_all
    from run_loop_spec [OF this run] show ?thesis by auto
  qed
  show "\<exists>l1. lexArticle U l = (Some LexArticle, l1)
        \<and> items l1 = items l \<and> start l1 = start l \<and> input l1 = input l
        \<and> pos l < pos l1 \<and> pos l1 \<le> length (input l)
        \<and> (\<forall>l' e. run_loop U (l1\<lparr>state := Some LexArticle\<rparr>) = (l', e) \<longrightarrow>
              (\<exists>new. items l' = items l @ new
                 \<and> (e = None \<longrightarrow> new \<noteq> [])
                 \<and> (new \<noteq> [] \<longrightarrow>
                       (\<exists>q. pos l1 \<le> q \<and> q \<le> length (input l)
                          \<and> val (hd new) = slice (input l) (start l) q))))"
    using a(1,2) b r by (intro exI [of _ ?l1]) simp
qed

text \<open>The line of the two bytes \<open>0x01\<close> and \<open>a\<close>: the control character is no token, and is in the text of the word.\<close>

theorem unmatched_stays_pending_witness:
  "(no_rule ascii_env (lex [CHR 0x01, CHR ''a''])
     \<and> start (lex [CHR 0x01, CHR ''a'']) \<le> pos (lex [CHR 0x01, CHR ''a''])
     \<and> pos (lex [CHR 0x01, CHR ''a'']) \<le> length (input (lex [CHR 0x01, CHR ''a''])))
   \<and> (\<exists>l1. lexArticle ascii_env (lex [CHR 0x01, CHR ''a'']) = (Some LexArticle, l1)
        \<and> items l1 = items (lex [CHR 0x01, CHR ''a'']) \<and> start l1 = start (lex [CHR 0x01, CHR ''a''])
        \<and> input l1 = input (lex [CHR 0x01, CHR ''a''])
        \<and> pos (lex [CHR 0x01, CHR ''a'']) < pos l1
        \<and> pos l1 \<le> length (input (lex [CHR 0x01, CHR ''a'']))
        \<and> (\<forall>l' e. run_loop ascii_env (l1\<lparr>state := Some LexArticle\<rparr>) = (l', e) \<longrightarrow>
              (\<exists>new. items l' = items (lex [CHR 0x01, CHR ''a'']) @ new
                 \<and> (e = None \<longrightarrow> new \<noteq> [])
                 \<and> (new \<noteq> [] \<longrightarrow>
                       (\<exists>q. pos l1 \<le> q \<and> q \<le> length (input (lex [CHR 0x01, CHR ''a'']))
                          \<and> val (hd new)
                              = slice (input (lex [CHR 0x01, CHR ''a'']))
                                  (start (lex [CHR 0x01, CHR ''a''])) q)))))"
proof -
  have h: "no_rule ascii_env (lex [CHR 0x01, CHR ''a''])
     \<and> start (lex [CHR 0x01, CHR ''a'']) \<le> pos (lex [CHR 0x01, CHR ''a''])
     \<and> pos (lex [CHR 0x01, CHR ''a'']) \<le> length (input (lex [CHR 0x01, CHR ''a'']))"
    by code_simp
  from h unmatched_stays_pending [THEN mp, OF h] show ?thesis by (rule conjI)
qed

theorem unmatched_stays_pending_counterexample:
  "no_rule ascii_env (lex [CHR 0x01, CHR ''a''])
   \<and> tokens ascii_env [CHR 0x01, CHR ''a'']
      = [\<lparr>typ = itemWord, val = [CHR 0x01, CHR ''a'']\<rparr>, \<lparr>typ = itemEOF, val = []\<rparr>]
   \<and> CHR 0x01 \<in> set (val (hd (tokens ascii_env [CHR 0x01, CHR ''a''])))"
  by code_simp

lemma slice_extend:
  "s \<le> p \<Longrightarrow> slice xs s (p + n) = slice xs s p @ take n (drop p xs)"
proof -
  assume "s \<le> p"
  then have "slice xs s p @ slice xs p (p + n) = slice xs s (p + n)"
    by (intro slice_append) simp_all
  then show ?thesis by (simp add: slice_def)
qed

text \<open>
  C8, as the code has it. On \<open><\<close> \<open>lexArticle\<close> steps back and hands over to \<open>lexXML\<close>
  with nothing consumed. If \<open>RawToken\<close> returns an error, \<open>lexXML\<close> panics and the loop
  ends there with no further item (no \<open>Error\<close> item). If it returns a token, having read
  \<open>n\<close> bytes, \<open>pos\<close> moves by \<open>n\<close> and one \<open>XML\<close> item is sent whose text is the pending
  segment: the \<open>n\<close> bytes read, behind whatever was pending at the \<open><\<close> (characters that
  no rule matched); it is exactly the bytes read when nothing was pending.
\<close>

theorem lexXML_token:
  "(fst (next_rune l) = rune_of (CHR ''<'') \<longrightarrow> lexArticle U l = (Some LexXML, l\<lparr>width := 1\<rparr>))
   \<and> (RawToken U (drop (pos l) (input l)) = None \<longrightarrow>
        lexXML U l = Inl XMLPanic
        \<and> run_loop U (l\<lparr>state := Some LexXML\<rparr>) = (l\<lparr>state := Some LexXML\<rparr>, Some XMLPanic))
   \<and> (RawToken U (drop (pos l) (input l)) = Some v \<and> start l \<le> pos l \<longrightarrow>
        (\<exists>n. n = length (input l) - pos l - v \<and> 0 < n \<and> pos l + n \<le> length (input l)
           \<and> lexXML U l
               = Inr (Some LexArticle,
                   l\<lparr>items := items l @
                        [\<lparr>typ = itemXML,
                          val = slice (input l) (start l) (pos l) @ take n (drop (pos l) (input l))\<rparr>],
                     start := pos l + n, pos := pos l + n\<rparr>)
           \<and> (start l = pos l \<longrightarrow>
                items (snd (projr (lexXML U l)))
                  = items l @ [\<lparr>typ = itemXML, val = take n (drop (pos l) (input l))\<rparr>])))"
proof (intro conjI impI)
  assume r: "fst (next_rune l) = rune_of (CHR ''<'')"
  then have "fst (next_rune l) = 60" by (simp add: rune_of_def)
  from next_rune_ascii [OF this] have "width (snd (next_rune l)) = 1" "pos (snd (next_rune l)) = pos l + 1"
    by simp_all
  then have "backup (snd (next_rune l)) = l\<lparr>width := 1\<rparr>"
    by (simp add: backup_def next_rune_def case_prod_beta split: if_splits)
  with r show "lexArticle U l = (Some LexXML, l\<lparr>width := 1\<rparr>)"
    by (simp add: lexArticle_unfold Let_def)
next
  assume n: "RawToken U (drop (pos l) (input l)) = None"
  then show "lexXML U l = Inl XMLPanic" by (simp add: lexXML_def)
  then show "run_loop U (l\<lparr>state := Some LexXML\<rparr>) = (l\<lparr>state := Some LexXML\<rparr>, Some XMLPanic)"
    using n by (simp add: run_loop.simps call_state_def lexXML_def)
next
  assume a: "RawToken U (drop (pos l) (input l)) = Some v \<and> start l \<le> pos l"
  let ?n = "length (input l) - pos l - v"
  from a RawToken_Some [of U "drop (pos l) (input l)" v] have v: "v < length (input l) - pos l"
    by simp
  have x: "lexXML U l
               = Inr (Some LexArticle,
                   l\<lparr>items := items l @
                        [\<lparr>typ = itemXML,
                          val = slice (input l) (start l) (pos l) @ take ?n (drop (pos l) (input l))\<rparr>],
                     start := pos l + ?n, pos := pos l + ?n\<rparr>)"
    using a by (simp add: lexXML_def emit_def slice_extend)
  show "\<exists>n. n = length (input l) - pos l - v \<and> 0 < n \<and> pos l + n \<le> length (input l)
           \<and> lexXML U l
               = Inr (Some LexArticle,
                   l\<lparr>items := items l @
                        [\<lparr>typ = itemXML,
                          val = slice (input l) (start l) (pos l) @ take n (drop (pos l) (input l))\<rparr>],
                     start := pos l + n, pos := pos l + n\<rparr>)
           \<and> (start l = pos l \<longrightarrow>
                items (snd (projr (lexXML U l)))
                  = items l @ [\<lparr>typ = itemXML, val = take n (drop (pos l) (input l))\<rparr>])"
    using v x by (intro exI [of _ ?n]) simp
qed

text \<open>The line \<open><ref name="x"/> b\<close>: one \<open>XML\<close> item with the text \<open><ref name="x"/>\<close>.\<close>

theorem lexXML_token_witness:
  "(RawToken ascii_env (drop (pos (lex ''<ref name=\"x\"/> b'')) (input (lex ''<ref name=\"x\"/> b''))) = Some 2 \<and> start (lex ''<ref name=\"x\"/> b'') \<le> pos (lex ''<ref name=\"x\"/> b''))
   \<and> (\<exists>n. n = length (input (lex ''<ref name=\"x\"/> b'')) - pos (lex ''<ref name=\"x\"/> b'') - 2 \<and> 0 < n \<and> pos (lex ''<ref name=\"x\"/> b'') + n \<le> length (input (lex ''<ref name=\"x\"/> b''))
           \<and> lexXML ascii_env (lex ''<ref name=\"x\"/> b'')
               = Inr (Some LexArticle,
                   (lex ''<ref name=\"x\"/> b'')\<lparr>items := items (lex ''<ref name=\"x\"/> b'') @
                        [\<lparr>typ = itemXML,
                          val = slice (input (lex ''<ref name=\"x\"/> b'')) (start (lex ''<ref name=\"x\"/> b'')) (pos (lex ''<ref name=\"x\"/> b'')) @ take n (drop (pos (lex ''<ref name=\"x\"/> b'')) (input (lex ''<ref name=\"x\"/> b'')))\<rparr>],
                     start := pos (lex ''<ref name=\"x\"/> b'') + n, pos := pos (lex ''<ref name=\"x\"/> b'') + n\<rparr>)
           \<and> (start (lex ''<ref name=\"x\"/> b'') = pos (lex ''<ref name=\"x\"/> b'') \<longrightarrow>
                items (snd (projr (lexXML ascii_env (lex ''<ref name=\"x\"/> b''))))
                  = items (lex ''<ref name=\"x\"/> b'') @ [\<lparr>typ = itemXML, val = take n (drop (pos (lex ''<ref name=\"x\"/> b'')) (input (lex ''<ref name=\"x\"/> b'')))\<rparr>]))
   \<and> fst (next_rune (lex ''<ref name=\"x\"/> b'')) = rune_of (CHR ''<'')
   \<and> lexArticle ascii_env (lex ''<ref name=\"x\"/> b'') = (Some LexXML, (lex ''<ref name=\"x\"/> b'')\<lparr>width := 1\<rparr>)
   \<and> tokens ascii_env ''<ref name=\"x\"/> b''
        = [\<lparr>typ = itemXML, val = ''<ref name=\"x\"/>''\<rparr>, \<lparr>typ = itemSpace, val = '' ''\<rparr>,
           \<lparr>typ = itemWord, val = ''b''\<rparr>, \<lparr>typ = itemEOF, val = []\<rparr>]"
proof -
  have h: "RawToken ascii_env (drop (pos (lex ''<ref name=\"x\"/> b'')) (input (lex ''<ref name=\"x\"/> b''))) = Some 2 \<and> start (lex ''<ref name=\"x\"/> b'') \<le> pos (lex ''<ref name=\"x\"/> b'')"
    by code_simp
  have r: "fst (next_rune (lex ''<ref name=\"x\"/> b'')) = rune_of (CHR ''<'')" by code_simp
  note a = lexXML_token [of "lex ''<ref name=\"x\"/> b''" ascii_env, THEN conjunct1, THEN mp, OF r]
  note b = lexXML_token [of "lex ''<ref name=\"x\"/> b''" ascii_env 2, THEN conjunct2, THEN conjunct2, THEN mp, OF h]
  have t: "tokens ascii_env ''<ref name=\"x\"/> b''
        = [\<lparr>typ = itemXML, val = ''<ref name=\"x\"/>''\<rparr>, \<lparr>typ = itemSpace, val = '' ''\<rparr>,
           \<lparr>typ = itemWord, val = ''b''\<rparr>, \<lparr>typ = itemEOF, val = []\<rparr>]"
    by code_simp
  show ?thesis by (rule conjI [OF h conjI [OF b conjI [OF r conjI [OF a t]]]])
qed

text \<open>
  The line of the byte \<open>0x01\<close> and \<open><a>\<close>: the reader consumes \<open><a>\<close> (nothing is left
  in it), and the text of the \<open>XML\<close> item is not \<open><a>\<close>: it starts with the byte \<open>0x01\<close>.
\<close>

theorem lexXML_token_counterexample:
  "RawToken ascii_env ''<a>'' = Some 0
   \<and> tokens ascii_env (CHR 0x01 # ''<a>'')
        = [\<lparr>typ = itemXML, val = CHR 0x01 # ''<a>''\<rparr>, \<lparr>typ = itemEOF, val = []\<rparr>]
   \<and> val (hd (tokens ascii_env (CHR 0x01 # ''<a>''))) \<noteq> ''<a>''"
  by code_simp

section \<open>ASCII lines\<close>

text \<open>
  On a line of ASCII bytes without \<open><\<close> the lexer consults the parameters only for the
  classes of ASCII code points. \<open>ascii_agree U\<close>: the tables of \<open>U\<close> class the ASCII
  code points as Unicode does (as \<open>ascii_env\<close> does).
\<close>

definition ascii_agree :: "env \<Rightarrow> bool" where
  "ascii_agree U =
     (\<forall>c < 0x80. Letter U c = ascii_letter c \<and> Digit U c = ascii_digit c
        \<and> (Mark U c \<or> Symbol U c \<or> Punct U c) = (ascii_symbol c \<or> ascii_punct c))"

definition ascii_line :: "string \<Rightarrow> bool" where
  "ascii_line inp = (\<forall>c \<in> set inp. (of_char c :: nat) < 0x80)"

definition agree_on :: "env \<Rightarrow> env \<Rightarrow> rune \<Rightarrow> bool" where
  "agree_on U V r =
     ((IsMark U r \<or> IsSymbol U r \<or> IsPunct U r) = (IsMark V r \<or> IsSymbol V r \<or> IsPunct V r)
      \<and> isAlphaNumeric U r = isAlphaNumeric V r)"

lemma ascii_agree_on:
  assumes "ascii_agree U" "r < 0x80"
  shows "agree_on U ascii_env r"
proof (cases "0 \<le> r")
  case True
  with assms(2) have "nat r < 0x80" by simp
  with assms(1) have "Letter U (nat r) = ascii_letter (nat r)" "Digit U (nat r) = ascii_digit (nat r)"
    "(Mark U (nat r) \<or> Symbol U (nat r) \<or> Punct U (nat r)) = (ascii_symbol (nat r) \<or> ascii_punct (nat r))"
    by (simp_all add: ascii_agree_def)
  with True show ?thesis
    by (simp add: agree_on_def isAlphaNumeric_def IsLetter_def IsDigit_def IsMark_def IsSymbol_def
        IsPunct_def ascii_env_def)
next
  case False
  then show ?thesis
    by (simp add: agree_on_def isAlphaNumeric_def IsLetter_def IsDigit_def IsMark_def IsSymbol_def
        IsPunct_def rune_of_def)
qed

lemma next_rune_ascii_line:
  assumes "ascii_line (input l)"
  shows "fst (next_rune l) < 0x80"
proof (cases "pos l < length (input l)")
  case True
  with assms have "byte (input l) (pos l) < 0x80" by (simp add: ascii_line_def byte_def)
  from next_rune_byte [OF True this] this show ?thesis by simp
next
  case False
  then have "next_rune l = (eof, l\<lparr>width := 0\<rparr>)" by (simp add: next_rune_def)
  then show ?thesis by (simp add: eof_def)
qed

lemma lexArticle_agree:
  assumes "agree_on U V (fst (next_rune l))"
  shows "lexArticle U l = lexArticle V l"
  using assms by (simp add: lexArticle_unfold Let_def agree_on_def)

lemma lexWord_loop_agree:
  assumes "ascii_agree U" "ascii_line (input l)"
  shows "lexWord_loop U l = lexWord_loop ascii_env l"
  using assms(2)
proof (induction l rule: lexWord_loop_induct [where U = U])
  case (step l)
  from ascii_agree_on [OF assms(1) next_rune_ascii_line [OF step.prems]]
  have a: "absorbs U l = absorbs ascii_env l" by (simp add: absorbs_def agree_on_def Let_def)
  show ?case
  proof (cases "absorbs U l")
    case True
    with step.IH [OF True] step.prems a show ?thesis
      by (subst (1 2) lexWord_loop_step) simp
  next
    case False
    with a show ?thesis by (subst (1 2) lexWord_loop_step) simp
  qed
qed

lemma call_state_agree:
  assumes "ascii_agree U" "ascii_line (input l)" "f \<noteq> LexXML" "f \<noteq> LexNumber"
  shows "call_state U f l = call_state ascii_env f l"
proof (cases f)
  case LexArticle
  from ascii_agree_on [OF assms(1) next_rune_ascii_line [OF assms(2)]]
  show ?thesis by (simp add: LexArticle call_state_def lexArticle_agree)
next
  case LexWord
  with lexWord_loop_agree [OF assms(1,2)] show ?thesis by (simp add: call_state_def lexWord_def)
qed (use assms in \<open>simp_all add: call_state_def\<close>)

lemma run_loop_agree:
  assumes "ascii_agree U" "ascii_line (input l)" "CHR ''<'' \<notin> set (input l)"
    "pos l \<le> length (input l)" "state l \<noteq> Some LexXML" "state l \<noteq> Some LexNumber"
  shows "run_loop U l = run_loop ascii_env l"
  using assms
proof (induction U l rule: run_loop.induct)
  case (1 U l)
  note ag = "1.prems"(1) and al = "1.prems"(2) and nl = "1.prems"(3) and pl = "1.prems"(4)
  show ?case
  proof (cases "state l")
    case None
    then show ?thesis by (simp add: run_loop.simps)
  next
    case (Some f)
    with "1.prems" have f: "f \<noteq> LexXML" "f \<noteq> LexNumber" by simp_all
    note c = call_state_agree [OF ag al f]
    show ?thesis
    proof (cases "call_state U f l")
      case (Inl e)
      with c have "call_state ascii_env f l = Inl e" by simp
      with Inl Some have "run_loop U l = (l, Some e)" "run_loop ascii_env l = (l, Some e)"
        by (subst run_loop.simps, simp)+
      then show ?thesis by simp
    next
      case (Inr b)
      obtain st l1 where b: "b = (st, l1)" by (cases b)
      with Inr have cs: "call_state U f l = Inr (st, l1)" by simp
      note s = call_state_step [OF cs pl f(2)]
      from s al nl have p: "ascii_line (input (l1\<lparr>state := st\<rparr>))"
        "CHR ''<'' \<notin> set (input (l1\<lparr>state := st\<rparr>))"
        "pos (l1\<lparr>state := st\<rparr>) \<le> length (input (l1\<lparr>state := st\<rparr>))"
        "state (l1\<lparr>state := st\<rparr>) \<noteq> Some LexXML" "state (l1\<lparr>state := st\<rparr>) \<noteq> Some LexNumber"
        by auto
      from c cs have "call_state ascii_env f l = Inr (st, l1)" by simp
      with cs Some have "run_loop U l = run_loop U (l1\<lparr>state := st\<rparr>)"
        "run_loop ascii_env l = run_loop ascii_env (l1\<lparr>state := st\<rparr>)"
        by (subst run_loop.simps, simp)+
      with "1.IH" [OF Some Inr b [symmetric] ag p] show ?thesis by simp
    qed
  qed
qed

lemma tokens_agree:
  assumes "ascii_agree U" "ascii_line inp" "CHR ''<'' \<notin> set inp"
  shows "tokens U inp = tokens ascii_env inp"
proof -
  let ?l = "(lex inp)\<lparr>state := Some LexArticle\<rparr>"
  have "run_loop U ?l = run_loop ascii_env ?l"
    using assms by (intro run_loop_agree) (simp_all add: lex_def)
  then show ?thesis by (simp add: tokens_def run_def)
qed

lemma ascii_agree_ascii_env: "ascii_agree ascii_env"
  by (simp add: ascii_agree_def ascii_env_def)

text \<open>
  C4. The link extractor returns the items received behind the last \<open>Mark\<close> item with
  text \<open>|\<close>, up to and with the \<open>RightTag\<close> it stops at; at end of input it returns
  what it has (an unterminated link). For the line \<open>[[Target|Display text]]\<close>, behind
  its \<open>[[\<close>, what it returns prints as \<open>Display text\<close>, and for \<open>[[Target]]\<close> as
  \<open>Target\<close> (\<open>render\<close>: the texts \<open>printElement\<close> prints, those of \<open>Word\<close>, \<open>Space\<close> and
  \<open>Mark\<close> items).
\<close>

theorem parseLink_after_last_pipe:
  "((\<forall>s \<in> set pre. typ s \<noteq> itemEOF \<and> typ s \<noteq> itemRightTag) \<longrightarrow>
      (typ t = itemRightTag \<longrightarrow> parseLink (pre @ t # rest) = Some (after_last_pipe pre @ [t], rest))
      \<and> (typ t = itemEOF \<longrightarrow> parseLink (pre @ t # rest) = Some (after_last_pipe pre, rest)))
   \<and> (ascii_agree U \<longrightarrow>
        (\<exists>toks res. tokens U ''[[Target|Display text]]'' = \<lparr>typ = itemLeftTag, val = ''[[''\<rparr> # toks
            \<and> parseLink toks = Some (res, [\<lparr>typ = itemEOF, val = []\<rparr>])
            \<and> render res = ''Display text'')
        \<and> (\<exists>toks res. tokens U ''[[Target]]'' = \<lparr>typ = itemLeftTag, val = ''[[''\<rparr> # toks
            \<and> parseLink toks = Some (res, [\<lparr>typ = itemEOF, val = []\<rparr>])
            \<and> render res = ''Target''))"
proof (intro conjI impI)
  assume p: "\<forall>s \<in> set pre. typ s \<noteq> itemEOF \<and> typ s \<noteq> itemRightTag"
  {
    assume "typ t = itemRightTag"
    then show "parseLink (pre @ t # rest) = Some (after_last_pipe pre @ [t], rest)"
      by (rule parseLink_stop(1) [OF p])
  next
    assume "typ t = itemEOF"
    then show "parseLink (pre @ t # rest) = Some (after_last_pipe pre, rest)"
      by (rule parseLink_stop(2) [OF p])
  }
next
  assume a: "ascii_agree U"
  let ?toks = "[\<lparr>typ = itemWord, val = ''Target''\<rparr>, \<lparr>typ = itemMark, val = ''|''\<rparr>,
      \<lparr>typ = itemWord, val = ''Display''\<rparr>, \<lparr>typ = itemSpace, val = '' ''\<rparr>,
      \<lparr>typ = itemWord, val = ''text''\<rparr>, \<lparr>typ = itemRightTag, val = '']]''\<rparr>,
      \<lparr>typ = itemEOF, val = []\<rparr>]"
  let ?res = "[\<lparr>typ = itemWord, val = ''Display''\<rparr>, \<lparr>typ = itemSpace, val = '' ''\<rparr>,
      \<lparr>typ = itemWord, val = ''text''\<rparr>, \<lparr>typ = itemRightTag, val = '']]''\<rparr>]"
  have "tokens U ''[[Target|Display text]]'' = tokens ascii_env ''[[Target|Display text]]''"
    using a by (rule tokens_agree) (simp_all add: ascii_line_def)
  also have "\<dots> = \<lparr>typ = itemLeftTag, val = ''[[''\<rparr> # ?toks" by code_simp
  finally have 1: "tokens U ''[[Target|Display text]]'' = \<lparr>typ = itemLeftTag, val = ''[[''\<rparr> # ?toks" .
  have 2: "parseLink ?toks = Some (?res, [\<lparr>typ = itemEOF, val = []\<rparr>])" by code_simp
  have 3: "render ?res = ''Display text''" by code_simp
  from 1 2 3 show "\<exists>toks res. tokens U ''[[Target|Display text]]'' = \<lparr>typ = itemLeftTag, val = ''[[''\<rparr> # toks
            \<and> parseLink toks = Some (res, [\<lparr>typ = itemEOF, val = []\<rparr>])
            \<and> render res = ''Display text''" by blast
  let ?toks' = "[\<lparr>typ = itemWord, val = ''Target''\<rparr>, \<lparr>typ = itemRightTag, val = '']]''\<rparr>,
      \<lparr>typ = itemEOF, val = []\<rparr>]"
  let ?res' = "[\<lparr>typ = itemWord, val = ''Target''\<rparr>, \<lparr>typ = itemRightTag, val = '']]''\<rparr>]"
  have "tokens U ''[[Target]]'' = tokens ascii_env ''[[Target]]''"
    using a by (rule tokens_agree) (simp_all add: ascii_line_def)
  also have "\<dots> = \<lparr>typ = itemLeftTag, val = ''[[''\<rparr> # ?toks'" by code_simp
  finally have 4: "tokens U ''[[Target]]'' = \<lparr>typ = itemLeftTag, val = ''[[''\<rparr> # ?toks'" .
  have 5: "parseLink ?toks' = Some (?res', [\<lparr>typ = itemEOF, val = []\<rparr>])" by code_simp
  have 6: "render ?res' = ''Target''" by code_simp
  from 4 5 6 show "\<exists>toks res. tokens U ''[[Target]]'' = \<lparr>typ = itemLeftTag, val = ''[[''\<rparr> # toks
            \<and> parseLink toks = Some (res, [\<lparr>typ = itemEOF, val = []\<rparr>])
            \<and> render res = ''Target''" by blast
qed

text \<open>
  The items of \<open>[[a|b|c d]]\<close> behind \<open>[[\<close> (two pipes: what is behind the second is
  kept), and the two lines of the claim under the ASCII tables.
\<close>

theorem parseLink_after_last_pipe_witness:
  "parseLink
     ([\<lparr>typ = itemWord, val = ''a''\<rparr>, \<lparr>typ = itemMark, val = ''|''\<rparr>,
       \<lparr>typ = itemWord, val = ''b''\<rparr>, \<lparr>typ = itemMark, val = ''|''\<rparr>,
       \<lparr>typ = itemWord, val = ''c''\<rparr>, \<lparr>typ = itemSpace, val = '' ''\<rparr>,
       \<lparr>typ = itemWord, val = ''d''\<rparr>]
      @ \<lparr>typ = itemRightTag, val = '']]''\<rparr> # [\<lparr>typ = itemEOF, val = []\<rparr>])
    = Some (after_last_pipe
        [\<lparr>typ = itemWord, val = ''a''\<rparr>, \<lparr>typ = itemMark, val = ''|''\<rparr>,
         \<lparr>typ = itemWord, val = ''b''\<rparr>, \<lparr>typ = itemMark, val = ''|''\<rparr>,
         \<lparr>typ = itemWord, val = ''c''\<rparr>, \<lparr>typ = itemSpace, val = '' ''\<rparr>,
         \<lparr>typ = itemWord, val = ''d''\<rparr>] @ [\<lparr>typ = itemRightTag, val = '']]''\<rparr>],
       [\<lparr>typ = itemEOF, val = []\<rparr>])
   \<and> after_last_pipe
        [\<lparr>typ = itemWord, val = ''a''\<rparr>, \<lparr>typ = itemMark, val = ''|''\<rparr>,
         \<lparr>typ = itemWord, val = ''b''\<rparr>, \<lparr>typ = itemMark, val = ''|''\<rparr>,
         \<lparr>typ = itemWord, val = ''c''\<rparr>, \<lparr>typ = itemSpace, val = '' ''\<rparr>,
         \<lparr>typ = itemWord, val = ''d''\<rparr>]
      = [\<lparr>typ = itemWord, val = ''c''\<rparr>, \<lparr>typ = itemSpace, val = '' ''\<rparr>,
         \<lparr>typ = itemWord, val = ''d''\<rparr>]
   \<and> ascii_agree ascii_env
   \<and> (\<exists>toks res. tokens ascii_env ''[[Target|Display text]]'' = \<lparr>typ = itemLeftTag, val = ''[[''\<rparr> # toks
            \<and> parseLink toks = Some (res, [\<lparr>typ = itemEOF, val = []\<rparr>])
            \<and> render res = ''Display text'')"
proof -
  let ?pre = "[\<lparr>typ = itemWord, val = ''a''\<rparr>, \<lparr>typ = itemMark, val = ''|''\<rparr>,
         \<lparr>typ = itemWord, val = ''b''\<rparr>, \<lparr>typ = itemMark, val = ''|''\<rparr>,
         \<lparr>typ = itemWord, val = ''c''\<rparr>, \<lparr>typ = itemSpace, val = '' ''\<rparr>,
         \<lparr>typ = itemWord, val = ''d''\<rparr>]"
  let ?t = "\<lparr>typ = itemRightTag, val = '']]''\<rparr>"
  have h: "\<forall>s \<in> set ?pre. typ s \<noteq> itemEOF \<and> typ s \<noteq> itemRightTag" by simp
  have t: "typ ?t = itemRightTag" by simp
  note a = parseLink_after_last_pipe [THEN conjunct1, THEN mp, OF h, THEN conjunct1, THEN mp, OF t]
  have b: "after_last_pipe ?pre = [\<lparr>typ = itemWord, val = ''c''\<rparr>, \<lparr>typ = itemSpace, val = '' ''\<rparr>,
         \<lparr>typ = itemWord, val = ''d''\<rparr>]" by code_simp
  note c = parseLink_after_last_pipe [THEN conjunct2, THEN mp, OF ascii_agree_ascii_env, THEN conjunct1]
  show ?thesis by (rule conjI [OF a conjI [OF b conjI [OF ascii_agree_ascii_env c]]])
qed

text \<open>
  C5. The title extractor returns every item received up to and with the first
  \<open>Title\<close> item, whatever its text, or up to the end of input; its \<open>level\<close> is not used.
  For the line \<open>== Heading ==\<close>, behind its first \<open>==\<close>, what it returns prints as
  \<open> Heading \<close> with both spaces; on \<open>== Title ===\<close> it stops at the \<open>===\<close>.
\<close>

theorem parseTitle_up_to_title:
  "((\<forall>s \<in> set pre. typ s \<noteq> itemEOF \<and> typ s \<noteq> itemTitle) \<longrightarrow>
      (typ t = itemTitle \<longrightarrow> parseTitle level (pre @ t # rest) = Some (pre @ [t], rest))
      \<and> (typ t = itemEOF \<longrightarrow> parseTitle level (pre @ t # rest) = Some (pre, rest)))
   \<and> parseTitle level ss = parseTitle level' ss
   \<and> (ascii_agree U \<longrightarrow>
        (\<exists>toks res. tokens U ''== Heading =='' = \<lparr>typ = itemTitle, val = ''==''\<rparr> # toks
            \<and> parseTitle 2 toks = Some (res, [\<lparr>typ = itemEOF, val = []\<rparr>])
            \<and> render res = '' Heading '')
        \<and> (\<exists>toks res. tokens U ''== Title ==='' = \<lparr>typ = itemTitle, val = ''==''\<rparr> # toks
            \<and> parseTitle 2 toks = Some (res, [\<lparr>typ = itemEOF, val = []\<rparr>])
            \<and> last res = \<lparr>typ = itemTitle, val = ''===''\<rparr>
            \<and> render res = '' Title ''))"
proof (intro conjI impI)
  assume p: "\<forall>s \<in> set pre. typ s \<noteq> itemEOF \<and> typ s \<noteq> itemTitle"
  {
    assume "typ t = itemTitle"
    then show "parseTitle level (pre @ t # rest) = Some (pre @ [t], rest)"
      by (rule parseTitle_stop(1) [OF p])
  next
    assume "typ t = itemEOF"
    then show "parseTitle level (pre @ t # rest) = Some (pre, rest)"
      by (rule parseTitle_stop(2) [OF p])
  }
next
  show "parseTitle level ss = parseTitle level' ss" by (simp add: parseTitle_def)
next
  assume a: "ascii_agree U"
  let ?toks = "[\<lparr>typ = itemSpace, val = '' ''\<rparr>, \<lparr>typ = itemWord, val = ''Heading''\<rparr>,
      \<lparr>typ = itemSpace, val = '' ''\<rparr>, \<lparr>typ = itemTitle, val = ''==''\<rparr>,
      \<lparr>typ = itemEOF, val = []\<rparr>]"
  let ?res = "[\<lparr>typ = itemSpace, val = '' ''\<rparr>, \<lparr>typ = itemWord, val = ''Heading''\<rparr>,
      \<lparr>typ = itemSpace, val = '' ''\<rparr>, \<lparr>typ = itemTitle, val = ''==''\<rparr>]"
  have "tokens U ''== Heading =='' = tokens ascii_env ''== Heading ==''"
    using a by (rule tokens_agree) (simp_all add: ascii_line_def)
  also have "\<dots> = \<lparr>typ = itemTitle, val = ''==''\<rparr> # ?toks" by code_simp
  finally have 1: "tokens U ''== Heading =='' = \<lparr>typ = itemTitle, val = ''==''\<rparr> # ?toks" .
  have 2: "parseTitle 2 ?toks = Some (?res, [\<lparr>typ = itemEOF, val = []\<rparr>])" by code_simp
  have 3: "render ?res = '' Heading ''" by code_simp
  from 1 2 3 show "\<exists>toks res. tokens U ''== Heading =='' = \<lparr>typ = itemTitle, val = ''==''\<rparr> # toks
            \<and> parseTitle 2 toks = Some (res, [\<lparr>typ = itemEOF, val = []\<rparr>])
            \<and> render res = '' Heading ''" by blast
  let ?toks' = "[\<lparr>typ = itemSpace, val = '' ''\<rparr>, \<lparr>typ = itemWord, val = ''Title''\<rparr>,
      \<lparr>typ = itemSpace, val = '' ''\<rparr>, \<lparr>typ = itemTitle, val = ''===''\<rparr>,
      \<lparr>typ = itemEOF, val = []\<rparr>]"
  let ?res' = "[\<lparr>typ = itemSpace, val = '' ''\<rparr>, \<lparr>typ = itemWord, val = ''Title''\<rparr>,
      \<lparr>typ = itemSpace, val = '' ''\<rparr>, \<lparr>typ = itemTitle, val = ''===''\<rparr>]"
  have "tokens U ''== Title ==='' = tokens ascii_env ''== Title ===''"
    using a by (rule tokens_agree) (simp_all add: ascii_line_def)
  also have "\<dots> = \<lparr>typ = itemTitle, val = ''==''\<rparr> # ?toks'" by code_simp
  finally have 4: "tokens U ''== Title ==='' = \<lparr>typ = itemTitle, val = ''==''\<rparr> # ?toks'" .
  have 5: "parseTitle 2 ?toks' = Some (?res', [\<lparr>typ = itemEOF, val = []\<rparr>])" by code_simp
  have 6: "render ?res' = '' Title ''" "last ?res' = \<lparr>typ = itemTitle, val = ''===''\<rparr>"
    by code_simp+
  from 4 5 6 show "\<exists>toks res. tokens U ''== Title ==='' = \<lparr>typ = itemTitle, val = ''==''\<rparr> # toks
            \<and> parseTitle 2 toks = Some (res, [\<lparr>typ = itemEOF, val = []\<rparr>])
            \<and> last res = \<lparr>typ = itemTitle, val = ''===''\<rparr>
            \<and> render res = '' Title ''" by blast
qed

theorem parseTitle_up_to_title_witness:
  "parseTitle 2
     ([\<lparr>typ = itemSpace, val = '' ''\<rparr>, \<lparr>typ = itemWord, val = ''History''\<rparr>,
       \<lparr>typ = itemSpace, val = '' ''\<rparr>] @ \<lparr>typ = itemTitle, val = ''==''\<rparr>
      # [\<lparr>typ = itemEOF, val = []\<rparr>])
    = Some ([\<lparr>typ = itemSpace, val = '' ''\<rparr>, \<lparr>typ = itemWord, val = ''History''\<rparr>,
       \<lparr>typ = itemSpace, val = '' ''\<rparr>] @ [\<lparr>typ = itemTitle, val = ''==''\<rparr>],
       [\<lparr>typ = itemEOF, val = []\<rparr>])
   \<and> ascii_agree ascii_env
   \<and> (\<exists>toks res. tokens ascii_env ''== Heading =='' = \<lparr>typ = itemTitle, val = ''==''\<rparr> # toks
            \<and> parseTitle 2 toks = Some (res, [\<lparr>typ = itemEOF, val = []\<rparr>])
            \<and> render res = '' Heading '')"
proof -
  let ?pre = "[\<lparr>typ = itemSpace, val = '' ''\<rparr>, \<lparr>typ = itemWord, val = ''History''\<rparr>,
       \<lparr>typ = itemSpace, val = '' ''\<rparr>]"
  let ?t = "\<lparr>typ = itemTitle, val = ''==''\<rparr>"
  have h: "\<forall>s \<in> set ?pre. typ s \<noteq> itemEOF \<and> typ s \<noteq> itemTitle" by simp
  have t: "typ ?t = itemTitle" by simp
  note a = parseTitle_up_to_title [THEN conjunct1, THEN mp, OF h, THEN conjunct1, THEN mp, OF t]
  note c = parseTitle_up_to_title [THEN conjunct2, THEN conjunct2, THEN mp,
      OF ascii_agree_ascii_env, THEN conjunct1]
  show ?thesis by (rule conjI [OF a conjI [OF ascii_agree_ascii_env c]])
qed

section \<open>Tokens are units: lexing the text of a token again\<close>

subsection \<open>The field \<open>width\<close> does not matter between state functions\<close>

lemma peek_width_update [simp]: "peek (l\<lparr>width := w\<rparr>) = peek l"
  by (simp add: peek_eq)

lemma lexSpace_loop_width [simp]: "lexSpace_loop (l\<lparr>width := w\<rparr>) = lexSpace_loop l"
  by (subst (1 2) lexSpace_loop_unfold) simp

lemma lexQuote_loop_width [simp]: "lexQuote_loop (l\<lparr>width := w\<rparr>) = lexQuote_loop l"
  by (subst (1 2) lexQuote_loop_unfold) simp

lemma lexTitle_loop_width [simp]: "lexTitle_loop (l\<lparr>width := w\<rparr>) = lexTitle_loop l"
  by (subst (1 2) lexTitle_loop_unfold) simp

lemma lexWord_loop_width [simp]: "lexWord_loop U (l\<lparr>width := w\<rparr>) = lexWord_loop U l"
  by (subst (1 2) lexWord_loop_unfold) simp

lemma acceptRun_width [simp]: "acceptRun valid (l\<lparr>width := w\<rparr>) = acceptRun valid l"
  by (subst (1 2) acceptRun_unfold) simp

lemma call_state_width:
  "f \<noteq> LexXML \<Longrightarrow> call_state U f (l\<lparr>width := w\<rparr>) = call_state U f l"
  by (cases f)
    (simp_all add: call_state_def lexArticle_def lexSpace_def lexWord_def lexQuote_def
      lexTitle_def lexNumber_def)

lemma run_loop_width_exact:
  assumes "state l \<noteq> Some LexXML"
  shows "items (fst (run_loop U (l\<lparr>width := w\<rparr>))) = items (fst (run_loop U l))
    \<and> snd (run_loop U (l\<lparr>width := w\<rparr>)) = snd (run_loop U l)"
proof (cases "state l")
  case None
  then show ?thesis by (simp add: run_loop.simps)
next
  case (Some f)
  with assms have "f \<noteq> LexXML" by simp
  from call_state_width [OF this, where U = U and l = l and w = w] Some show ?thesis
    by (subst (1 2 3 4) run_loop.simps) (simp split: sum.split)
qed

subsection \<open>The lexer behind an item is the lexer on the rest of the line\<close>

text \<open>
  \<open>rebase k n l\<close> is the lexer \<open>l\<close> seen from position \<open>k\<close> of its input, without the
  first \<open>n\<close> of its items. Every state function does the same on both.
\<close>

definition rebase :: "nat \<Rightarrow> nat \<Rightarrow> lexer \<Rightarrow> lexer" where
  "rebase k n l =
     l\<lparr>input := drop k (input l), start := start l - k, pos := pos l - k,
       items := drop n (items l)\<rparr>"

lemma rebase_fields [simp]:
  "input (rebase k n l) = drop k (input l)"
  "start (rebase k n l) = start l - k"
  "pos (rebase k n l) = pos l - k"
  "items (rebase k n l) = drop n (items l)"
  "state (rebase k n l) = state l"
  "width (rebase k n l) = width l"
  by (simp_all add: rebase_def)

lemma rebase_updates [simp]:
  "rebase k n (l\<lparr>state := st\<rparr>) = (rebase k n l)\<lparr>state := st\<rparr>"
  "rebase k n (l\<lparr>width := w\<rparr>) = (rebase k n l)\<lparr>width := w\<rparr>"
  by (simp_all add: rebase_def)

lemma next_rune_rebase:
  "k \<le> pos l \<Longrightarrow> next_rune (rebase k n l) = (fst (next_rune l), rebase k n (snd (next_rune l)))"
  by (auto simp: next_rune_def rebase_def case_prod_beta)

lemma backup_rebase: "backup (rebase k n l) = rebase k n (backup l)"
  by (simp add: backup_def rebase_def)

lemma peek_rebase:
  "k \<le> pos l \<Longrightarrow> peek (rebase k n l) = (fst (next_rune l), rebase k n (snd (peek l)))"
  by (simp add: peek_eq next_rune_rebase)

lemma slice_drop: "k \<le> s \<Longrightarrow> slice (drop k xs) (s - k) (p - k) = slice xs s p"
proof -
  assume "k \<le> s"
  then have "p - k - (s - k) = p - s" by simp
  with \<open>k \<le> s\<close> show ?thesis by (simp add: slice_def)
qed

lemma emit_rebase:
  "k \<le> start l \<Longrightarrow> n \<le> length (items l) \<Longrightarrow> emit t (rebase k n l) = rebase k n (emit t l)"
  by (simp add: emit_def rebase_def slice_drop)

lemma lexSpace_loop_rebase:
  "k \<le> pos l \<Longrightarrow> lexSpace_loop (rebase k n l) = rebase k n (lexSpace_loop l)"
proof (induction l rule: lexSpace_loop_induct)
  case (step l)
  show ?case
  proof (cases "isSpace (fst (next_rune l))")
    case True
    have "k \<le> pos (snd (next_rune (snd (peek l))))" using step.prems peek_next_mono [of l] by simp
    from step.IH [OF True this] True step.prems show ?thesis
      by (subst (1 2) lexSpace_loop_unfold) (simp add: next_rune_rebase peek_rebase)
  next
    case False
    with step.prems show ?thesis
      by (subst (1 2) lexSpace_loop_unfold) (simp add: next_rune_rebase peek_rebase)
  qed
qed

lemma lexQuote_loop_rebase:
  "k \<le> pos l \<Longrightarrow> lexQuote_loop (rebase k n l) = rebase k n (lexQuote_loop l)"
proof (induction l rule: lexQuote_loop_induct)
  case (step l)
  show ?case
  proof (cases "fst (next_rune l) = rune_of (CHR 0x27)")
    case True
    have "k \<le> pos (snd (next_rune (snd (peek l))))" using step.prems peek_next_mono [of l] by simp
    from step.IH [OF True this] True step.prems show ?thesis
      by (subst (1 2) lexQuote_loop_unfold) (simp add: next_rune_rebase peek_rebase)
  next
    case False
    with step.prems show ?thesis
      by (subst (1 2) lexQuote_loop_unfold) (simp add: next_rune_rebase peek_rebase)
  qed
qed

lemma lexTitle_loop_rebase:
  "k \<le> pos l \<Longrightarrow> lexTitle_loop (rebase k n l) = rebase k n (lexTitle_loop l)"
proof (induction l rule: lexTitle_loop_induct)
  case (step l)
  show ?case
  proof (cases "fst (next_rune l) = rune_of (CHR ''='')")
    case True
    have "k \<le> pos (snd (next_rune (snd (peek l))))" using step.prems peek_next_mono [of l] by simp
    from step.IH [OF True this] True step.prems show ?thesis
      by (subst (1 2) lexTitle_loop_unfold) (simp add: next_rune_rebase peek_rebase)
  next
    case False
    with step.prems show ?thesis
      by (subst (1 2) lexTitle_loop_unfold) (simp add: next_rune_rebase peek_rebase)
  qed
qed

lemma after_rune_rebase:
  "k \<le> pos l \<Longrightarrow> after_rune (rebase k n l) = rebase k n (after_rune l)"
  using next_rune_mono [of l]
  by (simp add: after_rune_def and_peek_eq next_rune_rebase)

lemma absorbs_rebase: "k \<le> pos l \<Longrightarrow> absorbs U (rebase k n l) = absorbs U l"
  using next_rune_mono [of l]
  by (simp add: absorbs_def and_peek_eq next_rune_rebase Let_def)

lemma lexWord_loop_rebase:
  "k \<le> pos l \<Longrightarrow> k \<le> start l \<Longrightarrow> n \<le> length (items l)
     \<Longrightarrow> lexWord_loop U (rebase k n l) = rebase k n (lexWord_loop U l)"
proof (induction l rule: lexWord_loop_induct [where U = U])
  case (step l)
  show ?case
  proof (cases "absorbs U l")
    case True
    have "k \<le> pos (after_rune l)" using step.prems(1) next_rune_mono [of l] by simp
    from step.IH [OF True this] True step.prems show ?thesis
      by (subst (1 2) lexWord_loop_step) (simp add: absorbs_rebase after_rune_rebase)
  next
    case False
    with step.prems show ?thesis
      by (subst (1 2) lexWord_loop_step)
        (simp add: absorbs_rebase after_rune_rebase backup_rebase emit_rebase)
  qed
qed

lemma peeked_rebase:
  "k \<le> pos l \<Longrightarrow> peeked r (rebase k n l) = rebase k n (peeked r l)"
  by (simp add: peeked_def and_peek_eq next_rune_rebase)

lemma lexArticle_rebase:
  assumes "k \<le> start l" "start l \<le> pos l" "n \<le> length (items l)"
  shows "lexArticle U (rebase k n l) = (fst (lexArticle U l), rebase k n (snd (lexArticle U l)))"
proof -
  from assms have k: "k \<le> pos l" by simp
  with next_rune_mono [of l] have k1: "k \<le> pos (snd (next_rune l))" by simp
  from k k1 assms(1,3) show ?thesis
    by (simp add: lexArticle_unfold Let_def next_rune_rebase emit_rebase backup_rebase peeked_rebase)
qed

lemma lexXML_rebase:
  assumes "k \<le> start l" "start l \<le> pos l" "n \<le> length (items l)"
  shows "lexXML U (rebase k n l) = map_sum id (map_prod id (rebase k n)) (lexXML U l)"
proof -
  from assms have k: "k \<le> pos l" by simp
  have e: "emit itemXML ((rebase k n l)\<lparr>pos := q - k\<rparr>)
      = rebase k n (emit itemXML (l\<lparr>pos := q\<rparr>))" for q
    using assms by (simp add: emit_def rebase_def slice_drop)
  from k show ?thesis
    by (simp add: lexXML_def Let_def e split: option.split)
qed

lemma call_state_rebase:
  assumes "k \<le> start l" "start l \<le> pos l" "n \<le> length (items l)" "f \<noteq> LexNumber"
  shows "call_state U f (rebase k n l) = map_sum id (map_prod id (rebase k n)) (call_state U f l)"
proof -
  from assms have k: "k \<le> pos l" by simp
  have m: "k \<le> start (x l)" "n \<le> length (items (x l))"
    if "start (x l) = start l" "items (x l) = items l" for x :: "lexer \<Rightarrow> lexer"
    using that assms by simp_all
  show ?thesis
  proof (cases f)
    case LexArticle
    with lexArticle_rebase [OF assms(1-3)] show ?thesis
      by (simp add: call_state_def map_prod_def case_prod_beta)
  next
    case LexSpace
    with k m [of lexSpace_loop] show ?thesis
      by (simp add: call_state_def lexSpace_def lexSpace_loop_rebase emit_rebase)
  next
    case LexWord
    with k assms show ?thesis by (simp add: call_state_def lexWord_def lexWord_loop_rebase)
  next
    case LexQuote
    with k m [of lexQuote_loop] show ?thesis
      by (simp add: call_state_def lexQuote_def lexQuote_loop_rebase emit_rebase)
  next
    case LexTitle
    with k m [of lexTitle_loop] show ?thesis
      by (simp add: call_state_def lexTitle_def lexTitle_loop_rebase emit_rebase)
  next
    case LexXML
    with lexXML_rebase [OF assms(1-3)] show ?thesis by (simp add: call_state_def)
  next
    case LexNumber
    with assms(4) show ?thesis by simp
  qed
qed

lemma run_loop_rebase:
  assumes "k \<le> start l" "start l \<le> pos l" "pos l \<le> length (input l)" "n \<le> length (items l)"
    "state l \<noteq> Some LexNumber"
  shows "run_loop U (rebase k n l) = map_prod (rebase k n) id (run_loop U l)"
  using assms
proof (induction U l rule: run_loop.induct)
  case (1 U l)
  show ?case
  proof (cases "state l")
    case None
    then show ?thesis by (subst (1 2) run_loop.simps) simp
  next
    case (Some f)
    with "1.prems" have fn: "f \<noteq> LexNumber" by simp
    note c = call_state_rebase [OF "1.prems"(1,2,4) fn, of U]
    show ?thesis
    proof (cases "call_state U f l")
      case (Inl e)
      with c have "call_state U f (rebase k n l) = Inl e" by simp
      with Inl Some show ?thesis by (subst (1 2) run_loop.simps) simp
    next
      case (Inr b)
      obtain st l1 where b: "b = (st, l1)" by (cases b)
      with Inr have cs: "call_state U f l = Inr (st, l1)" by simp
      with c have cr: "call_state U f (rebase k n l) = Inr (st, rebase k n l1)" by simp
      note s = call_state_step [OF cs "1.prems"(3) fn]
      let ?l2 = "l1\<lparr>state := st\<rparr>"
      have p: "k \<le> start ?l2" "start ?l2 \<le> pos ?l2" "pos ?l2 \<le> length (input ?l2)"
        "n \<le> length (items ?l2)" "state ?l2 \<noteq> Some LexNumber"
        using s "1.prems" by (auto simp: sent_def silent_def split: if_splits)
      have "run_loop U (rebase k n l) = run_loop U (rebase k n ?l2)"
        using Some cr by (subst run_loop.simps) simp
      also have "\<dots> = map_prod (rebase k n) id (run_loop U ?l2)"
        by (rule "1.IH" [OF Some Inr b [symmetric] p])
      also have "run_loop U ?l2 = run_loop U l"
        using Some cs by (subst (2) run_loop.simps) simp
      finally show ?thesis .
    qed
  qed
qed

text \<open>
  The lexer that has just sent an item (\<open>start = pos\<close>, next state \<open>lexArticle\<close>) goes on
  as a new lexer does on the rest of the line.
\<close>

lemma run_loop_restart:
  assumes "start l = pos l" "pos l \<le> length (input l)" "state l = Some LexArticle"
  shows "items (fst (run_loop U l)) = items l @ tokens U (drop (pos l) (input l))
    \<and> snd (run_loop U l) = snd (run U (lex (drop (pos l) (input l))))"
proof -
  let ?n = "length (items l)"
  have r: "rebase (pos l) ?n l = ((lex (drop (pos l) (input l)))\<lparr>state := Some LexArticle\<rparr>)\<lparr>width := width l\<rparr>"
    using assms by (simp add: rebase_def lex_def)
  have "run_loop U (rebase (pos l) ?n l) = map_prod (rebase (pos l) ?n) id (run_loop U l)"
    using assms by (intro run_loop_rebase) simp_all
  then have a: "items (fst (run_loop U (rebase (pos l) ?n l))) = drop ?n (items (fst (run_loop U l)))"
    and b: "snd (run_loop U (rebase (pos l) ?n l)) = snd (run_loop U l)"
    by (simp_all add: map_prod_def case_prod_beta)
  obtain l' e where x: "run_loop U l = (l', e)" by (cases "run_loop U l")
  from run_loop_spec [OF _ _ _ x] assms obtain new where n: "items l' = items l @ new" by auto
  have w: "items (fst (run_loop U (rebase (pos l) ?n l))) = tokens U (drop (pos l) (input l))
    \<and> snd (run_loop U (rebase (pos l) ?n l)) = snd (run U (lex (drop (pos l) (input l))))"
    unfolding r tokens_def run_def
    by (rule run_loop_width_exact) simp
  from a b w n x show ?thesis by simp
qed

subsection \<open>The lexer on a line that ends where an item ends\<close>

text \<open>\<open>cut_at e l\<close> is the lexer \<open>l\<close> on the first \<open>e\<close> bytes of its input.\<close>

definition cut_at :: "nat \<Rightarrow> lexer \<Rightarrow> lexer" where
  "cut_at e l = l\<lparr>input := take e (input l)\<rparr>"

lemma cut_fields [simp]:
  "input (cut_at e l) = take e (input l)"
  "start (cut_at e l) = start l"
  "pos (cut_at e l) = pos l"
  "items (cut_at e l) = items l"
  "state (cut_at e l) = state l"
  "width (cut_at e l) = width l"
  by (simp_all add: cut_at_def)

lemma cut_updates [simp]:
  "cut_at e (l\<lparr>state := st\<rparr>) = (cut_at e l)\<lparr>state := st\<rparr>"
  "cut_at e (l\<lparr>width := w\<rparr>) = (cut_at e l)\<lparr>width := w\<rparr>"
  by (simp_all add: cut_at_def)

lemma next_rune_cut:
  assumes "pos l < length (input l)" "pos (snd (next_rune l)) \<le> e"
  shows "next_rune (cut_at e l) = (fst (next_rune l), cut_at e (snd (next_rune l)))"
proof -
  let ?s = "drop (pos l) (input l)"
  obtain r w where d: "DecodeRuneInString ?s = (r, w)" by (cases "DecodeRuneInString ?s")
  with assms(1) have n: "next_rune l = (r, l\<lparr>width := w, pos := pos l + w\<rparr>)"
    by (simp add: next_rune_def)
  with assms(2) have w: "w \<le> e - pos l" "pos l + w \<le> e" by simp_all
  from decode_width_cases [OF d] assms(1) have "1 \<le> w" by simp
  with w assms(1) have lt: "pos l < length (take e (input l))" by simp
  have "drop (pos l) (take e (input l)) = take (e - pos l) ?s" by (simp add: drop_take)
  with decode_prefix_cases [OF d w(1)]
  have "DecodeRuneInString (drop (pos l) (take e (input l))) = (r, w)" by simp
  with lt have "next_rune (cut_at e l) = (r, (cut_at e l)\<lparr>width := w, pos := pos l + w\<rparr>)"
    by (simp add: next_rune_def min_le_iff_disj not_le)
  with n show ?thesis by (simp add: cut_at_def)
qed

lemma next_rune_cut_end: "e \<le> pos l \<Longrightarrow> next_rune (cut_at e l) = (eof, (cut_at e l)\<lparr>width := 0\<rparr>)"
  by (simp add: next_rune_def min_le_iff_disj)

text \<open>Whether the next rune is a given ASCII character is a question about the next byte.\<close>

lemma next_rune_is_ascii:
  assumes "(of_char c :: nat) < 0x80"
  shows "fst (next_rune l) = rune_of c \<longleftrightarrow> pos l < length (input l) \<and> input l ! pos l = c"
proof
  assume r: "fst (next_rune l) = rune_of c"
  have "0 \<le> rune_of c" "rune_of c < 0x80" using assms by (simp_all add: rune_of_def)
  from next_rune_ascii [OF r this]
  have "pos l < length (input l)" "int (byte (input l) (pos l)) = rune_of c" by simp_all
  then show "pos l < length (input l) \<and> input l ! pos l = c"
    by (simp add: rune_of_def byte_def)
next
  assume a: "pos l < length (input l) \<and> input l ! pos l = c"
  with assms have "byte (input l) (pos l) < 0x80" by (simp add: byte_def)
  from next_rune_byte [OF _ this] a show "fst (next_rune l) = rune_of c"
    by (simp add: rune_of_def byte_def)
qed

lemma next_rune_cut_ascii:
  assumes "(of_char c :: nat) < 0x80"
  shows "fst (next_rune (cut_at e l)) = rune_of c \<longleftrightarrow> pos l < e \<and> fst (next_rune l) = rune_of c"
  by (auto simp: next_rune_is_ascii [OF assms])

lemma ascii_chars [simp]:
  "(of_char (CHR ''{'') :: nat) < 0x80" "(of_char (CHR ''}'') :: nat) < 0x80"
  "(of_char (CHR ''['') :: nat) < 0x80" "(of_char (CHR '']'') :: nat) < 0x80"
  "(of_char (CHR 0x27) :: nat) < 0x80" "(of_char (CHR ''='') :: nat) < 0x80"
  "(of_char (CHR '' '') :: nat) < 0x80" "(of_char (CHR 0x09) :: nat) < 0x80"
  "(of_char (CHR ''<'') :: nat) < 0x80"
  by simp_all

lemma slice_take: "p \<le> e \<Longrightarrow> slice (take e xs) s p = slice xs s p"
proof -
  assume "p \<le> e"
  then have "take (p - s) (take (e - s) (drop s xs)) = take (p - s) (drop s xs)" by simp
  then show ?thesis by (simp add: slice_def drop_take)
qed

lemma emit_cut: "pos l \<le> e \<Longrightarrow> emit t (cut_at e l) = cut_at e (emit t l)"
  by (simp add: emit_def cut_at_def slice_take)

lemma backup_cut: "backup (cut_at e l) = cut_at e (backup l)"
  by (simp add: backup_def cut_at_def)

lemma peek_next [simp]: "next_rune (snd (peek l)) = next_rune l"
  by (simp add: peek_eq)

text \<open>
  A scanning loop that stops at \<open>e\<close> stops there on the line cut at \<open>e\<close> too: it reads
  the same runes up to \<open>e\<close>, and then the end of the line instead of the rune that
  stopped it.
\<close>

lemma lexSpace_loop_cut:
  assumes "pos (lexSpace_loop l) = e"
  shows "lexSpace_loop (cut_at e l) = (cut_at e (lexSpace_loop l))\<lparr>width := 0\<rparr>"
  using assms
proof (induction l rule: lexSpace_loop_induct)
  case (step l)
  let ?l1 = "snd (next_rune l)"
  show ?case
  proof (cases "isSpace (fst (next_rune l))")
    case True
    then have u: "lexSpace_loop l = lexSpace_loop ?l1"
      by (subst lexSpace_loop_unfold) simp
    from True have "fst (next_rune l) \<noteq> eof" by auto
    then have lt: "pos l < length (input l)" by (simp add: next_rune_eof)
    from lexSpace_loop_pos [of ?l1] u step.prems have "pos ?l1 \<le> e" by simp
    from next_rune_cut [OF lt this] True
    have "lexSpace_loop (cut_at e l) = lexSpace_loop (cut_at e ?l1)"
      by (subst lexSpace_loop_unfold) simp
    also have "\<dots> = (cut_at e (lexSpace_loop ?l1))\<lparr>width := 0\<rparr>"
      using step.IH [OF True] u step.prems by simp
    finally show ?thesis by (simp add: u)
  next
    case False
    then have u: "lexSpace_loop l = snd (peek l)"
      by (subst lexSpace_loop_unfold) simp
    with step.prems have "e \<le> pos l" by simp
    from next_rune_cut_end [OF this] show ?thesis
      by (subst lexSpace_loop_unfold) (simp add: u peek_eq)
  qed
qed

lemma lexQuote_loop_cut:
  assumes "pos (lexQuote_loop l) = e"
  shows "lexQuote_loop (cut_at e l) = (cut_at e (lexQuote_loop l))\<lparr>width := 0\<rparr>"
  using assms
proof (induction l rule: lexQuote_loop_induct)
  case (step l)
  let ?l1 = "snd (next_rune l)"
  show ?case
  proof (cases "fst (next_rune l) = rune_of (CHR 0x27)")
    case True
    then have u: "lexQuote_loop l = lexQuote_loop ?l1"
      by (subst lexQuote_loop_unfold) simp
    from True have "fst (next_rune l) \<noteq> eof" by auto
    then have lt: "pos l < length (input l)" by (simp add: next_rune_eof)
    from lexQuote_loop_pos [of ?l1] u step.prems have "pos ?l1 \<le> e" by simp
    from next_rune_cut [OF lt this] True
    have "lexQuote_loop (cut_at e l) = lexQuote_loop (cut_at e ?l1)"
      by (subst lexQuote_loop_unfold) simp
    also have "\<dots> = (cut_at e (lexQuote_loop ?l1))\<lparr>width := 0\<rparr>"
      using step.IH [OF True] u step.prems by simp
    finally show ?thesis by (simp add: u)
  next
    case False
    then have u: "lexQuote_loop l = snd (peek l)"
      by (subst lexQuote_loop_unfold) simp
    with step.prems have "e \<le> pos l" by simp
    from next_rune_cut_end [OF this] show ?thesis
      by (subst lexQuote_loop_unfold) (simp add: u peek_eq)
  qed
qed

lemma lexTitle_loop_cut:
  assumes "pos (lexTitle_loop l) = e"
  shows "lexTitle_loop (cut_at e l) = (cut_at e (lexTitle_loop l))\<lparr>width := 0\<rparr>"
  using assms
proof (induction l rule: lexTitle_loop_induct)
  case (step l)
  let ?l1 = "snd (next_rune l)"
  show ?case
  proof (cases "fst (next_rune l) = rune_of (CHR ''='')")
    case True
    then have u: "lexTitle_loop l = lexTitle_loop ?l1"
      by (subst lexTitle_loop_unfold) simp
    from True have "fst (next_rune l) \<noteq> eof" by auto
    then have lt: "pos l < length (input l)" by (simp add: next_rune_eof)
    from lexTitle_loop_pos [of ?l1] u step.prems have "pos ?l1 \<le> e" by simp
    from next_rune_cut [OF lt this] True
    have "lexTitle_loop (cut_at e l) = lexTitle_loop (cut_at e ?l1)"
      by (subst lexTitle_loop_unfold) simp
    also have "\<dots> = (cut_at e (lexTitle_loop ?l1))\<lparr>width := 0\<rparr>"
      using step.IH [OF True] u step.prems by simp
    finally show ?thesis by (simp add: u)
  next
    case False
    then have u: "lexTitle_loop l = snd (peek l)"
      by (subst lexTitle_loop_unfold) simp
    with step.prems have "e \<le> pos l" by simp
    from next_rune_cut_end [OF this] show ?thesis
      by (subst lexTitle_loop_unfold) (simp add: u peek_eq)
  qed
qed

lemma after_rune_eq: "after_rune l = (snd (next_rune l))\<lparr>width := width (after_rune l)\<rparr>"
  by (simp add: after_rune_def and_peek_eq)

lemma lexWord_loop_after_rune: "lexWord_loop U (after_rune l) = lexWord_loop U (snd (next_rune l))"
  by (subst after_rune_eq) simp

lemma backup_after_rune_eq:
  assumes "\<not> absorbs U l"
  shows "backup (after_rune l) = l\<lparr>width := width (after_rune l)\<rparr>"
proof -
  have "pos (after_rune l) - width (after_rune l) = pos l"
    using backup_after_rune [OF assms] by simp
  then have "backup ((snd (next_rune l))\<lparr>width := width (after_rune l)\<rparr>)
      = l\<lparr>width := width (after_rune l)\<rparr>"
    by (simp add: backup_def next_rune_def case_prod_beta split: if_splits)
  then show ?thesis using after_rune_eq [of l] by simp
qed

lemma lexWord_loop_stop:
  "\<not> absorbs U l \<Longrightarrow> lexWord_loop U l = emit itemWord (l\<lparr>width := width (after_rune l)\<rparr>)"
  by (subst lexWord_loop_step) (simp add: backup_after_rune_eq)

lemma absorbs_at_end: "length (input l) \<le> pos l \<Longrightarrow> \<not> absorbs U l"
  by (simp add: absorbs_def next_rune_at_end Let_def)

lemma lexWord_loop_cut:
  assumes "pos (lexWord_loop U l) = e"
  shows "lexWord_loop U (cut_at e l) = (cut_at e (lexWord_loop U l))\<lparr>width := 0\<rparr>"
  using assms
proof (induction l rule: lexWord_loop_induct [where U = U])
  case (step l)
  let ?r = "fst (next_rune l)" and ?l1 = "snd (next_rune l)"
  let ?q = "rune_of (CHR 0x27)"
  show ?case
  proof (cases "absorbs U l")
    case True
    then have u: "lexWord_loop U l = lexWord_loop U ?l1"
      by (subst lexWord_loop_step) (simp add: lexWord_loop_after_rune)
    from True have "?r \<noteq> eof" by (rule absorbs_not_eof)
    then have lt: "pos l < length (input l)" by (simp add: next_rune_eof)
    from lexWord_loop_pos [of ?l1 U] u step.prems have p1: "pos ?l1 \<le> e" by simp
    note n = next_rune_cut [OF lt p1]
    have "\<not> (?r = ?q \<and> fst (next_rune (cut_at e ?l1)) = ?q)"
      using True by (auto simp: absorbs_def Let_def and_peek_eq next_rune_cut_ascii)
    with True n have "absorbs U (cut_at e l)"
      by (simp add: absorbs_def Let_def and_peek_eq)
    then have "lexWord_loop U (cut_at e l) = lexWord_loop U (cut_at e ?l1)"
      using n by (subst lexWord_loop_step) (simp add: lexWord_loop_after_rune)
    also have "\<dots> = (cut_at e (lexWord_loop U ?l1))\<lparr>width := 0\<rparr>"
    proof -
      have "pos (lexWord_loop U (after_rune l)) = e"
        using u step.prems by (simp add: lexWord_loop_after_rune)
      from step.IH [OF True this] show ?thesis
        by (subst (asm) after_rune_eq) (simp add: lexWord_loop_after_rune)
    qed
    finally show ?thesis by (simp add: u)
  next
    case False
    note s = lexWord_loop_stop [OF False]
    with step.prems have e: "e = pos l" by (simp add: emit_def)
    then have ce: "length (input (cut_at e l)) \<le> pos (cut_at e l)" by simp
    from absorbs_at_end [OF ce] have "\<not> absorbs U (cut_at e l)" .
    from lexWord_loop_stop [OF this]
    have "lexWord_loop U (cut_at e l) = emit itemWord ((cut_at e l)\<lparr>width := width (after_rune (cut_at e l))\<rparr>)" .
    moreover have "width (after_rune (cut_at e l)) = 0"
      using e by (simp add: after_rune_def and_peek_eq next_rune_cut_end)
    ultimately show ?thesis using e by (simp add: s emit_def cut_at_def slice_take)
  qed
qed

text \<open>
  \<open>pair_ahead l\<close>: the lexer is at two equal braces or brackets, the runes of the items
  \<open>LeftMeta\<close>, \<open>RightMeta\<close>, \<open>LeftTag\<close> and \<open>RightTag\<close>. \<open>single U r l1\<close> is what
  \<open>lexArticle\<close> does otherwise with the rune \<open>r\<close> it has read.
\<close>

definition pair_ahead :: "lexer \<Rightarrow> bool" where
  "pair_ahead l =
     (\<exists>c \<in> {CHR ''{'', CHR ''}'', CHR ''['', CHR '']''}.
        fst (next_rune l) = rune_of c \<and> fst (next_rune (snd (next_rune l))) = rune_of c)"

definition single :: "env \<Rightarrow> rune \<Rightarrow> lexer \<Rightarrow> stateFn option \<times> lexer" where
  "single U r l1 =
     (if r = rune_of (CHR 0x27) then (Some LexQuote, l1)
      else if r = rune_of (CHR ''<'') then (Some LexXML, backup l1)
      else if r = rune_of (CHR ''='') then (Some LexTitle, l1)
      else if isSpace r then (Some LexSpace, peeked r l1)
      else if IsMark U r \<or> IsSymbol U r \<or> IsPunct U r
        then (Some LexArticle, emit itemMark (peeked r l1))
      else if isAlphaNumeric U r then (Some LexWord, peeked r l1)
      else (Some LexArticle, peeked r l1))"

lemma pair_ahead_iff:
  "pair_ahead l \<longleftrightarrow>
     (let r = fst (next_rune l); p = fst (next_rune (snd (next_rune l)))
      in r = rune_of (CHR ''{'') \<and> p = rune_of (CHR ''{'')
         \<or> r = rune_of (CHR ''}'') \<and> p = rune_of (CHR ''}'')
         \<or> r = rune_of (CHR ''['') \<and> p = rune_of (CHR ''['')
         \<or> r = rune_of (CHR '']'') \<and> p = rune_of (CHR '']''))"
  by (simp add: pair_ahead_def Let_def)

lemma lexArticle_single:
  assumes "fst (next_rune l) \<noteq> eof" "\<not> pair_ahead l"
  shows "lexArticle U l = single U (fst (next_rune l)) (snd (next_rune l))"
proof -
  from assms(2) have
    "\<not> (fst (next_rune l) = rune_of (CHR ''{'') \<and> fst (next_rune (snd (next_rune l))) = rune_of (CHR ''{''))"
    "\<not> (fst (next_rune l) = rune_of (CHR ''}'') \<and> fst (next_rune (snd (next_rune l))) = rune_of (CHR ''}''))"
    "\<not> (fst (next_rune l) = rune_of (CHR ''['') \<and> fst (next_rune (snd (next_rune l))) = rune_of (CHR ''[''))"
    "\<not> (fst (next_rune l) = rune_of (CHR '']'') \<and> fst (next_rune (snd (next_rune l))) = rune_of (CHR '']''))"
    by (simp_all add: pair_ahead_iff Let_def)
  with assms(1) show ?thesis
    by (simp only: lexArticle_unfold Let_def single_def if_False)
qed

lemma emit_width_update: "emit t (l\<lparr>width := w\<rparr>) = (emit t l)\<lparr>width := w\<rparr>"
  by (simp add: emit_def)

lemma peeked_cut:
  "peeked r (cut_at e l) = (cut_at e (peeked r l))\<lparr>width := width (peeked r (cut_at e l))\<rparr>"
proof -
  have "peeked r (cut_at e l) = (cut_at e l)\<lparr>width := width (peeked r (cut_at e l))\<rparr>"
    by (rule peeked_eq)
  also have "cut_at e l = cut_at e ((peeked r l)\<lparr>width := width l\<rparr>)"
    by (subst peeked_eq) simp
  finally show ?thesis by simp
qed

text \<open>\<open>same_but_width a b\<close>: the lexers differ in \<open>width\<close> at most.\<close>

definition same_but_width :: "lexer \<Rightarrow> lexer \<Rightarrow> bool" where
  "same_but_width a b = (a = b\<lparr>width := width a\<rparr>)"

lemma same_but_width_refl [simp]: "same_but_width a a"
  by (simp add: same_but_width_def)

lemma same_but_width_update [simp]: "same_but_width (a\<lparr>width := w\<rparr>) a"
  by (simp add: same_but_width_def)

lemma single_cut:
  assumes "pos l1 \<le> e" "r \<noteq> rune_of (CHR ''<'')"
  shows "fst (single U r (cut_at e l1)) = fst (single U r l1)
    \<and> same_but_width (snd (single U r (cut_at e l1))) (cut_at e (snd (single U r l1)))"
proof -
  have pk: "same_but_width (peeked r (cut_at e l1)) (cut_at e (peeked r l1))"
    unfolding same_but_width_def by (subst peeked_cut) simp
  have "emit itemMark (peeked r (cut_at e l1))
      = (cut_at e (emit itemMark (peeked r l1)))\<lparr>width := width (peeked r (cut_at e l1))\<rparr>"
    using assms(1) by (subst peeked_cut) (simp add: emit_width_update emit_cut)
  then have mk: "same_but_width (emit itemMark (peeked r (cut_at e l1)))
      (cut_at e (emit itemMark (peeked r l1)))"
    by (simp add: same_but_width_def)
  from assms(2) pk mk show ?thesis by (simp add: single_def)
qed

lemma lexArticle_cut:
  assumes "fst (next_rune l) \<noteq> eof" "pos (snd (next_rune l)) \<le> e" "\<not> pair_ahead l"
    "fst (next_rune l) \<noteq> rune_of (CHR ''<'')"
  shows "fst (lexArticle U (cut_at e l)) = fst (lexArticle U l)
    \<and> same_but_width (snd (lexArticle U (cut_at e l))) (cut_at e (snd (lexArticle U l)))"
proof -
  let ?r = "fst (next_rune l)" and ?l1 = "snd (next_rune l)"
  from assms(1) have lt: "pos l < length (input l)" by (simp add: next_rune_eof)
  note n = next_rune_cut [OF lt assms(2)]
  have "\<not> pair_ahead (cut_at e l)"
    using assms(3) n by (auto simp: pair_ahead_def next_rune_cut_ascii)
  moreover from n assms(1) have "fst (next_rune (cut_at e l)) \<noteq> eof" by simp
  ultimately have "lexArticle U (cut_at e l) = single U ?r (cut_at e ?l1)"
    using n by (simp add: lexArticle_single)
  moreover have "lexArticle U l = single U ?r ?l1"
    using assms(1,3) by (rule lexArticle_single)
  ultimately show ?thesis using single_cut [OF assms(2,4)] by simp
qed

lemma lexArticle_at_end:
  "length (input l) \<le> pos l \<Longrightarrow> lexArticle U l = (None, emit itemEOF (l\<lparr>width := 0\<rparr>))"
  by (simp add: lexArticle_unfold Let_def next_rune_at_end)

lemma lexArticle_pair:
  assumes "pair_ahead l"
  shows "\<exists>t. lexArticle U l = (Some LexArticle, emit t (snd (next_rune (snd (next_rune l)))))
    \<and> t \<in> {itemLeftMeta, itemRightMeta, itemLeftTag, itemRightTag}"
proof -
  from assms have "fst (next_rune l) \<noteq> eof" by (auto simp: pair_ahead_def)
  with assms show ?thesis
    unfolding pair_ahead_iff Let_def lexArticle_unfold
    by (elim disjE conjE) (simp_all, blast+)
qed

lemma single_pos: "r \<noteq> rune_of (CHR ''<'') \<Longrightarrow> pos (snd (single U r l1)) = pos l1"
  by (simp add: single_def)

text \<open>The types of the items that are one unit of text.\<close>

definition unit_types :: "itemType set" where
  "unit_types = {itemWord, itemMark, itemSpace, itemQuote, itemTitle}"

lemma emit_same_but_width:
  "pos b \<le> e \<Longrightarrow> a = (cut_at e b)\<lparr>width := w\<rparr>
     \<Longrightarrow> same_but_width (emit t a) (cut_at e (emit t b))"
  by (simp add: same_but_width_def emit_width_update emit_cut)

lemma sent_type:
  "sent l l1 t \<Longrightarrow> items l1 = items l @ [\<lparr>typ = t', val = v\<rparr>] \<Longrightarrow> t = t'"
  by (simp add: sent_def)

lemma lexArticle_sent_cut:
  assumes "sent l (snd (lexArticle U l)) t" "t \<in> unit_types"
  shows "fst (lexArticle U (cut_at (pos (snd (lexArticle U l))) l)) = fst (lexArticle U l)
    \<and> same_but_width (snd (lexArticle U (cut_at (pos (snd (lexArticle U l))) l)))
         (cut_at (pos (snd (lexArticle U l))) (snd (lexArticle U l)))"
proof -
  let ?r = "fst (next_rune l)" and ?l1 = "snd (next_rune l)"
  have ne: "?r \<noteq> eof"
  proof
    assume "?r = eof"
    then have "length (input l) \<le> pos l" by (simp add: next_rune_eof)
    then have "items (snd (lexArticle U l))
        = items l @ [\<lparr>typ = itemEOF, val = slice (input l) (start l) (pos l)\<rparr>]"
      by (simp add: lexArticle_at_end emit_def)
    from sent_type [OF assms(1) this] assms(2) show False by (simp add: unit_types_def)
  qed
  have np: "\<not> pair_ahead l"
  proof
    assume "pair_ahead l"
    from lexArticle_pair [OF this, of U] obtain t' where
      l: "lexArticle U l = (Some LexArticle, emit t' (snd (next_rune ?l1)))"
      and t': "t' \<in> {itemLeftMeta, itemRightMeta, itemLeftTag, itemRightTag}" by blast
    have "items (snd (lexArticle U l))
        = items l @ [\<lparr>typ = t', val = slice (input l) (start l) (pos (snd (next_rune ?l1)))\<rparr>]"
      by (simp add: l)
    from sent_type [OF assms(1) this] have "t = t'" .
    with t' assms(2) show False by (auto simp: unit_types_def)
  qed
  note sg = lexArticle_single [OF ne np, of U]
  have nx: "?r \<noteq> rune_of (CHR ''<'')"
  proof
    assume "?r = rune_of (CHR ''<'')"
    then have "items (snd (lexArticle U l)) = items l" by (simp add: sg single_def)
    with assms(1) show False by (simp add: sent_def)
  qed
  have "pos ?l1 \<le> pos (snd (lexArticle U l))"
    by (simp add: sg single_pos [OF nx])
  from lexArticle_cut [OF ne this np nx] show ?thesis .
qed

lemma lexArticle_silent_cut:
  assumes "silent l (snd (lexArticle U l))" "fst (lexArticle U l) \<noteq> None"
    "fst (lexArticle U l) \<noteq> Some LexXML" "pos (snd (lexArticle U l)) \<le> e"
  shows "fst (lexArticle U (cut_at e l)) = fst (lexArticle U l)
    \<and> same_but_width (snd (lexArticle U (cut_at e l))) (cut_at e (snd (lexArticle U l)))"
proof -
  let ?r = "fst (next_rune l)" and ?l1 = "snd (next_rune l)"
  have ne: "?r \<noteq> eof"
  proof
    assume "?r = eof"
    then have "length (input l) \<le> pos l" by (simp add: next_rune_eof)
    with assms(2) show False by (simp add: lexArticle_at_end)
  qed
  have np: "\<not> pair_ahead l"
  proof
    assume "pair_ahead l"
    from lexArticle_pair [OF this, of U] obtain t' where
      l: "lexArticle U l = (Some LexArticle, emit t' (snd (next_rune ?l1)))" by blast
    with assms(1) show False by (simp add: silent_def)
  qed
  note sg = lexArticle_single [OF ne np, of U]
  have nx: "?r \<noteq> rune_of (CHR ''<'')"
  proof
    assume "?r = rune_of (CHR ''<'')"
    with assms(3) show False by (simp add: sg single_def)
  qed
  have "pos ?l1 \<le> e"
    using assms(4) by (simp add: sg single_pos [OF nx])
  from lexArticle_cut [OF ne this np nx] show ?thesis .
qed

lemma call_lexArticle_cut_sent:
  assumes "call_state U LexArticle l = Inr (st, l1)" "sent l l1 t" "t \<in> unit_types"
  shows "\<exists>l1'. call_state U LexArticle (cut_at (pos l1) l) = Inr (st, l1')
    \<and> same_but_width l1' (cut_at (pos l1) l1)"
proof -
  from assms(1) have st: "st = fst (lexArticle U l)" and l1: "l1 = snd (lexArticle U l)"
    by (simp_all add: call_state_def)
  from assms(2) have "sent l (snd (lexArticle U l)) t" by (simp only: l1)
  from lexArticle_sent_cut [OF this assms(3)]
  have a: "fst (lexArticle U (cut_at (pos l1) l)) = st"
    and b: "same_but_width (snd (lexArticle U (cut_at (pos l1) l))) (cut_at (pos l1) l1)"
    by (simp_all only: st l1)
  have "lexArticle U (cut_at (pos l1) l) = (st, snd (lexArticle U (cut_at (pos l1) l)))"
    by (simp only: a [symmetric] prod.collapse)
  then have "call_state U LexArticle (cut_at (pos l1) l)
      = Inr (st, snd (lexArticle U (cut_at (pos l1) l)))"
    by (simp only: call_state_def stateFn.case)
  with b show ?thesis by blast
qed

lemma call_lexSpace_cut_sent:
  assumes "call_state U LexSpace l = Inr (st, l1)"
  shows "\<exists>l1'. call_state U LexSpace (cut_at (pos l1) l) = Inr (st, l1')
    \<and> same_but_width l1' (cut_at (pos l1) l1)"
proof -
  from assms have l1: "l1 = emit itemSpace (lexSpace_loop l)" and st: "st = Some LexArticle"
    by (simp_all add: call_state_def lexSpace_def)
  have p: "pos (lexSpace_loop l) = pos l1" by (simp add: l1)
  note c = lexSpace_loop_cut [OF p]
  have "same_but_width (emit itemSpace (lexSpace_loop (cut_at (pos l1) l)))
      (cut_at (pos l1) (emit itemSpace (lexSpace_loop l)))"
    by (rule emit_same_but_width [OF _ c]) (simp add: p)
  then have "same_but_width (emit itemSpace (lexSpace_loop (cut_at (pos l1) l))) (cut_at (pos l1) l1)"
    by (simp only: l1 [symmetric])
  moreover have "call_state U LexSpace (cut_at (pos l1) l)
      = Inr (st, emit itemSpace (lexSpace_loop (cut_at (pos l1) l)))"
    by (simp only: call_state_def stateFn.case lexSpace_def st)
  ultimately show ?thesis by blast
qed

lemma call_lexQuote_cut_sent:
  assumes "call_state U LexQuote l = Inr (st, l1)"
  shows "\<exists>l1'. call_state U LexQuote (cut_at (pos l1) l) = Inr (st, l1')
    \<and> same_but_width l1' (cut_at (pos l1) l1)"
proof -
  from assms have l1: "l1 = emit itemQuote (lexQuote_loop l)" and st: "st = Some LexArticle"
    by (simp_all add: call_state_def lexQuote_def)
  have p: "pos (lexQuote_loop l) = pos l1" by (simp add: l1)
  note c = lexQuote_loop_cut [OF p]
  have "same_but_width (emit itemQuote (lexQuote_loop (cut_at (pos l1) l)))
      (cut_at (pos l1) (emit itemQuote (lexQuote_loop l)))"
    by (rule emit_same_but_width [OF _ c]) (simp add: p)
  then have "same_but_width (emit itemQuote (lexQuote_loop (cut_at (pos l1) l))) (cut_at (pos l1) l1)"
    by (simp only: l1 [symmetric])
  moreover have "call_state U LexQuote (cut_at (pos l1) l)
      = Inr (st, emit itemQuote (lexQuote_loop (cut_at (pos l1) l)))"
    by (simp only: call_state_def stateFn.case lexQuote_def st)
  ultimately show ?thesis by blast
qed

lemma call_lexTitle_cut_sent:
  assumes "call_state U LexTitle l = Inr (st, l1)"
  shows "\<exists>l1'. call_state U LexTitle (cut_at (pos l1) l) = Inr (st, l1')
    \<and> same_but_width l1' (cut_at (pos l1) l1)"
proof -
  from assms have l1: "l1 = emit itemTitle (lexTitle_loop l)" and st: "st = Some LexArticle"
    by (simp_all add: call_state_def lexTitle_def)
  have p: "pos (lexTitle_loop l) = pos l1" by (simp add: l1)
  note c = lexTitle_loop_cut [OF p]
  have "same_but_width (emit itemTitle (lexTitle_loop (cut_at (pos l1) l)))
      (cut_at (pos l1) (emit itemTitle (lexTitle_loop l)))"
    by (rule emit_same_but_width [OF _ c]) (simp add: p)
  then have "same_but_width (emit itemTitle (lexTitle_loop (cut_at (pos l1) l))) (cut_at (pos l1) l1)"
    by (simp only: l1 [symmetric])
  moreover have "call_state U LexTitle (cut_at (pos l1) l)
      = Inr (st, emit itemTitle (lexTitle_loop (cut_at (pos l1) l)))"
    by (simp only: call_state_def stateFn.case lexTitle_def st)
  ultimately show ?thesis by blast
qed

lemma call_lexWord_cut_sent:
  assumes "call_state U LexWord l = Inr (st, l1)"
  shows "\<exists>l1'. call_state U LexWord (cut_at (pos l1) l) = Inr (st, l1')
    \<and> same_but_width l1' (cut_at (pos l1) l1)"
proof -
  from assms have l1: "l1 = lexWord_loop U l" and st: "st = Some LexArticle"
    by (simp_all add: call_state_def lexWord_def)
  have p: "pos (lexWord_loop U l) = pos l1" by (simp only: l1)
  from lexWord_loop_cut [OF p]
  have "lexWord_loop U (cut_at (pos l1) l) = (cut_at (pos l1) l1)\<lparr>width := 0\<rparr>"
    by (simp only: l1 [symmetric])
  then have "same_but_width (lexWord_loop U (cut_at (pos l1) l)) (cut_at (pos l1) l1)"
    by (simp add: same_but_width_def)
  moreover have "call_state U LexWord (cut_at (pos l1) l)
      = Inr (st, lexWord_loop U (cut_at (pos l1) l))"
    by (simp only: call_state_def stateFn.case lexWord_def st)
  ultimately show ?thesis by blast
qed

lemma call_state_cut_sent:
  assumes "call_state U f l = Inr (st, l1)" "sent l l1 t" "t \<in> unit_types" "f \<noteq> LexNumber"
  shows "\<exists>l1'. call_state U f (cut_at (pos l1) l) = Inr (st, l1')
    \<and> same_but_width l1' (cut_at (pos l1) l1)"
proof (cases f)
  case LexArticle
  with assms(1) have "call_state U LexArticle l = Inr (st, l1)" by (simp only:)
  from call_lexArticle_cut_sent [OF this assms(2,3)] show ?thesis by (simp only: LexArticle)
next
  case LexSpace
  with assms(1) have "call_state U LexSpace l = Inr (st, l1)" by (simp only:)
  from call_lexSpace_cut_sent [OF this] show ?thesis by (simp only: LexSpace)
next
  case LexWord
  with assms(1) have "call_state U LexWord l = Inr (st, l1)" by (simp only:)
  from call_lexWord_cut_sent [OF this] show ?thesis by (simp only: LexWord)
next
  case LexQuote
  with assms(1) have "call_state U LexQuote l = Inr (st, l1)" by (simp only:)
  from call_lexQuote_cut_sent [OF this] show ?thesis by (simp only: LexQuote)
next
  case LexTitle
  with assms(1) have "call_state U LexTitle l = Inr (st, l1)" by (simp only:)
  from call_lexTitle_cut_sent [OF this] show ?thesis by (simp only: LexTitle)
next
  case LexXML
  with assms(1) have "lexXML U l = Inr (st, l1)" by (simp add: call_state_def)
  from lexXML_Inr [OF this]
  have "items l1 = items l @ [\<lparr>typ = itemXML, val = slice (input l) (start l) (pos l1)\<rparr>]"
    by (rule conjunct2 [THEN conjunct2, THEN conjunct2, THEN conjunct2, THEN conjunct2,
        THEN conjunct2])
  from sent_type [OF assms(2) this] have "t = itemXML" .
  with assms(3) show ?thesis by (simp add: unit_types_def)
next
  case LexNumber
  with assms(4) show ?thesis by (simp only:) simp
qed

lemma emitting_not_silent:
  assumes "f \<noteq> LexArticle" "f \<noteq> LexNumber" "call_state U f l = Inr (st, l1)"
  shows "\<not> silent l l1"
proof (cases f)
  case LexSpace
  with assms(3) have "l1 = emit itemSpace (lexSpace_loop l)" by (simp add: call_state_def lexSpace_def)
  then have "items l1 \<noteq> items l" by simp
  then show ?thesis by (simp add: silent_def)
next
  case LexWord
  with assms(3) have "l1 = lexWord_loop U l" by (simp add: call_state_def lexWord_def)
  with lexWord_loop_items [of U l] have "items l1 \<noteq> items l" by simp
  then show ?thesis by (simp add: silent_def)
next
  case LexQuote
  with assms(3) have "l1 = emit itemQuote (lexQuote_loop l)" by (simp add: call_state_def lexQuote_def)
  then have "items l1 \<noteq> items l" by simp
  then show ?thesis by (simp add: silent_def)
next
  case LexTitle
  with assms(3) have "l1 = emit itemTitle (lexTitle_loop l)" by (simp add: call_state_def lexTitle_def)
  then have "items l1 \<noteq> items l" by simp
  then show ?thesis by (simp add: silent_def)
next
  case LexXML
  with assms(3) have "lexXML U l = Inr (st, l1)" by (simp add: call_state_def)
  from lexXML_Inr [OF this] have "items l1 \<noteq> items l" by simp
  then show ?thesis by (simp add: silent_def)
next
  case LexArticle
  with assms(1) show ?thesis by (simp only:) simp
next
  case LexNumber
  with assms(2) show ?thesis by (simp only:) simp
qed

lemma call_state_cut_silent:
  assumes "call_state U f l = Inr (st, l1)" "silent l l1" "st \<noteq> None" "st \<noteq> Some LexXML"
    "pos l1 \<le> e" "f \<noteq> LexNumber"
  shows "\<exists>l1'. call_state U f (cut_at e l) = Inr (st, l1') \<and> same_but_width l1' (cut_at e l1)"
proof -
  have f: "f = LexArticle"
    using emitting_not_silent [OF _ assms(6) assms(1)] assms(2) by blast
  with assms(1) have st: "st = fst (lexArticle U l)" and l1: "l1 = snd (lexArticle U l)"
    by (simp_all add: call_state_def)
  note h = assms(2) [unfolded l1] assms(3) [unfolded st] assms(4) [unfolded st]
    assms(5) [unfolded l1]
  from lexArticle_silent_cut [OF h]
  have a: "fst (lexArticle U (cut_at e l)) = st"
    and b: "same_but_width (snd (lexArticle U (cut_at e l))) (cut_at e l1)"
    by (simp_all only: st l1)
  have "lexArticle U (cut_at e l) = (st, snd (lexArticle U (cut_at e l)))"
    by (simp only: a [symmetric] prod.collapse)
  then have "call_state U f (cut_at e l) = Inr (st, snd (lexArticle U (cut_at e l)))"
    by (simp only: f call_state_def stateFn.case)
  with b show ?thesis by blast
qed

lemma run_loop_step:
  "state l = Some f \<Longrightarrow> call_state U f l = Inr (st, l1)
     \<Longrightarrow> run_loop U l = run_loop U (l1\<lparr>state := st\<rparr>)"
  by (subst run_loop.simps) simp

lemma run_loop_panic:
  "state l = Some f \<Longrightarrow> call_state U f l = Inl err \<Longrightarrow> run_loop U l = (l, Some err)"
  by (subst run_loop.simps) simp

lemma run_loop_nil: "state l = None \<Longrightarrow> run_loop U l = (l, None)"
  by (subst run_loop.simps) simp

lemma run_loop_at_end:
  assumes "state l = Some LexArticle" "length (input l) \<le> pos l"
  shows "run_loop U l = ((emit itemEOF (l\<lparr>width := 0\<rparr>))\<lparr>state := None\<rparr>, None)"
proof -
  from lexArticle_at_end [OF assms(2), of U]
  have "call_state U LexArticle l = Inr (None, emit itemEOF (l\<lparr>width := 0\<rparr>))"
    by (simp add: call_state_def)
  from run_loop_step [OF assms(1) this] show ?thesis by (simp add: run_loop_nil)
qed

lemma first_item_xml:
  assumes "state l = Some LexXML" "start l \<le> pos l" "pos l \<le> length (input l)"
    "run_loop U l = (l', e)" "items l' = items l @ t # ms"
  shows "typ t = itemXML"
proof (cases "call_state U LexXML l")
  case (Inl err)
  from run_loop_panic [OF assms(1) Inl] assms(4,5) show ?thesis by simp
next
  case (Inr b)
  obtain st l1 where b: "b = (st, l1)" by (cases b)
  with Inr have c: "call_state U LexXML l = Inr (st, l1)" by simp
  then have x: "lexXML U l = Inr (st, l1)" by (simp add: call_state_def)
  note i = lexXML_Inr [OF x]
  let ?l2 = "l1\<lparr>state := st\<rparr>"
  from run_loop_step [OF assms(1) c] assms(4) have r: "run_loop U ?l2 = (l', e)" by simp
  have "start ?l2 \<le> pos ?l2" "pos ?l2 \<le> length (input ?l2)" "state ?l2 \<noteq> Some LexNumber"
    using i by simp_all
  from run_loop_spec [OF this r] obtain new where "items l' = items ?l2 @ new" by blast
  with i assms(5) have "t = \<lparr>typ = itemXML, val = slice (input l) (start l) (pos l1)\<rparr>" by simp
  then show ?thesis by simp
qed

lemma slice_length: "a \<le> b \<Longrightarrow> b \<le> length s \<Longrightarrow> length (slice s a b) = b - a"
  by (simp add: slice_def)

lemma slice_take_empty: "slice s a a = []"
  by (simp add: slice_def)

text \<open>The \<open>EOF\<close> item of a line that ends where the last item ends.\<close>

definition eof_item :: item where
  "eof_item = \<lparr>typ = itemEOF, val = []\<rparr>"

lemma run_loop_same_but_width:
  assumes "same_but_width a b" "st \<noteq> Some LexXML"
  shows "items (fst (run_loop U (a\<lparr>state := st\<rparr>))) = items (fst (run_loop U (b\<lparr>state := st\<rparr>)))
    \<and> snd (run_loop U (a\<lparr>state := st\<rparr>)) = snd (run_loop U (b\<lparr>state := st\<rparr>))"
proof -
  from assms(1) have "a\<lparr>state := st\<rparr> = (b\<lparr>state := st\<rparr>)\<lparr>width := width a\<rparr>"
    by (simp add: same_but_width_def) (metis lexer.update_convs(2) lexer.surjective lexer.update_convs(5))
  moreover have "state (b\<lparr>state := st\<rparr>) \<noteq> Some LexXML" using assms(2) by simp
  ultimately show ?thesis using run_loop_width_exact [of "b\<lparr>state := st\<rparr>" U "width a"] by simp
qed

text \<open>
  The first item still to come, on the line cut where that item ends: the lexer sends the
  same item, then the \<open>EOF\<close> item, and finishes.
\<close>

lemma first_item_cut:
  assumes "start l \<le> pos l" "pos l \<le> length (input l)" "state l \<noteq> Some LexNumber"
    "run_loop U l = (l', e)" "items l' = items l @ t # ms" "typ t \<in> unit_types"
  shows "items (fst (run_loop U (cut_at (start l + length (val t)) l))) = items l @ [t, eof_item]
    \<and> snd (run_loop U (cut_at (start l + length (val t)) l)) = None"
  using assms
proof (induction U l rule: run_loop.induct)
  case (1 U l)
  let ?E = "start l + length (val t)"
  show ?case
  proof (cases "state l")
    case None
    from run_loop_nil [OF this] "1.prems"(4,5) show ?thesis by simp
  next
    case (Some f)
    with "1.prems" have fn: "f \<noteq> LexNumber" by simp
    show ?thesis
    proof (cases "call_state U f l")
      case (Inl err)
      from run_loop_panic [OF Some Inl] "1.prems"(4,5) show ?thesis by simp
    next
      case (Inr b)
      obtain st l1 where b: "b = (st, l1)" by (cases b)
      with Inr have cs: "call_state U f l = Inr (st, l1)" by simp
      note s = call_state_step [OF cs "1.prems"(2) fn]
      let ?l2 = "l1\<lparr>state := st\<rparr>"
      have p: "start ?l2 \<le> pos ?l2" "pos ?l2 \<le> length (input ?l2)" "state ?l2 \<noteq> Some LexNumber"
        using s "1.prems" by (auto simp: sent_def silent_def split: if_splits)
      from run_loop_step [OF Some cs] "1.prems"(4) have r: "run_loop U ?l2 = (l', e)" by simp
      from run_loop_spec [OF p r] obtain new where
        new: "items l' = items ?l2 @ new"
        and hd: "new \<noteq> [] \<longrightarrow> (\<exists>q. pos ?l2 \<le> q \<and> q \<le> length (input ?l2)
             \<and> val (hd new) = slice (input ?l2) (start ?l2) q)"
        by blast
      from s have inp: "input l1 = input l" and pl: "pos l1 \<le> length (input l)"
        and pm: "pos l \<le> pos l1" by simp_all
      consider (stop) "st = None" "sent l l1 itemEOF"
        | (quiet) "st \<noteq> None" "silent l l1"
        | (emits) t' where "st = Some LexArticle" "sent l l1 t'"
        using s by (auto split: if_splits)
      then show ?thesis
      proof cases
        case stop
        from run_loop_nil [of ?l2 U] stop(1) r have "l' = ?l2" by simp
        with stop(2) "1.prems"(5) have "t = \<lparr>typ = itemEOF, val = slice (input l) (start l) (pos l1)\<rparr>"
          by (simp add: sent_def)
        then have "typ t = itemEOF" by simp
        with "1.prems"(6) show ?thesis by (simp add: unit_types_def)
      next
        case quiet
        from quiet(2) have il: "items l1 = items l" and sl: "start l1 = start l"
          by (simp_all add: silent_def)
        from new il "1.prems"(5) have nw: "new = t # ms" by simp
        have nx: "st \<noteq> Some LexXML"
        proof
          assume "st = Some LexXML"
          then have "state ?l2 = Some LexXML" by simp
          from first_item_xml [OF this p(1,2) r, of t ms] "1.prems"(5) il
          have "typ t = itemXML" by simp
          with "1.prems"(6) show False by (simp add: unit_types_def)
        qed
        from hd nw obtain q where q: "pos l1 \<le> q" "q \<le> length (input l)"
          "val t = slice (input l) (start l) q" using inp sl by auto
        from p(1) sl q have E: "?E = q" by (simp add: slice_length)
        with q have pe: "pos l1 \<le> ?E" by simp
        from call_state_cut_silent [OF cs quiet(2,1) nx pe fn] obtain l1' where
          c: "call_state U f (cut_at ?E l) = Inr (st, l1')"
          and w: "same_but_width l1' (cut_at ?E l1)" by blast
        have "state (cut_at ?E l) = Some f" using Some by simp
        from run_loop_step [OF this c]
        have "run_loop U (cut_at ?E l) = run_loop U (l1'\<lparr>state := st\<rparr>)" .
        with run_loop_same_but_width [OF w nx, of U]
        have a: "items (fst (run_loop U (cut_at ?E l))) = items (fst (run_loop U (cut_at ?E ?l2)))"
          and b': "snd (run_loop U (cut_at ?E l)) = snd (run_loop U (cut_at ?E ?l2))"
          by simp_all
        have i5: "items l' = items ?l2 @ t # ms" using "1.prems"(5) il by simp
        from "1.IH" [OF Some Inr b [symmetric] p r i5 "1.prems"(6)] sl il a b'
        show ?thesis by simp
      next
        case emits
        from emits(2) have il: "items l1 = items l @ [\<lparr>typ = t', val = slice (input l) (start l) (pos l1)\<rparr>]"
          and sl: "start l1 = pos l1" by (simp_all add: sent_def)
        from new il "1.prems"(5) have t: "t = \<lparr>typ = t', val = slice (input l) (start l) (pos l1)\<rparr>"
          by simp
        with "1.prems"(6) have tu: "t' \<in> unit_types" by simp
        from "1.prems"(1) pm pl t have E: "?E = pos l1" by (simp add: slice_length)
        from call_state_cut_sent [OF cs emits(2) tu fn] obtain l1' where
          c: "call_state U f (cut_at (pos l1) l) = Inr (st, l1')"
          and w: "same_but_width l1' (cut_at (pos l1) l1)" by blast
        have "state (cut_at (pos l1) l) = Some f" using Some by simp
        from run_loop_step [OF this c]
        have "run_loop U (cut_at (pos l1) l) = run_loop U (l1'\<lparr>state := st\<rparr>)" .
        with run_loop_same_but_width [OF w, of st U] emits(1)
        have a: "items (fst (run_loop U (cut_at (pos l1) l)))
            = items (fst (run_loop U (cut_at (pos l1) ?l2)))"
          and b': "snd (run_loop U (cut_at (pos l1) l)) = snd (run_loop U (cut_at (pos l1) ?l2))"
          by simp_all
        have "state (cut_at (pos l1) ?l2) = Some LexArticle" using emits(1) by simp
        moreover have "length (input (cut_at (pos l1) ?l2)) \<le> pos (cut_at (pos l1) ?l2)" by simp
        ultimately have "run_loop U (cut_at (pos l1) ?l2)
            = ((emit itemEOF ((cut_at (pos l1) ?l2)\<lparr>width := 0\<rparr>))\<lparr>state := None\<rparr>, None)"
          by (rule run_loop_at_end)
        with a b' il sl t E show ?thesis
          by (simp add: emit_def slice_take_empty eof_item_def)
      qed
    qed
  qed
qed

text \<open>\<open>relexes U t\<close>: the text of \<open>t\<close>, as a line of its own, is \<open>t\<close> and the end of input.\<close>

definition relexes :: "env \<Rightarrow> item \<Rightarrow> bool" where
  "relexes U t = (tokens U (val t) = [t, eof_item] \<and> snd (run U (lex (val t))) = None)"

lemma first_token_relexes:
  assumes "tokens U s = t # ms" "typ t \<in> unit_types"
  shows "relexes U t"
proof -
  let ?l = "(lex s)\<lparr>state := Some LexArticle\<rparr>"
  obtain l' e where r: "run_loop U ?l = (l', e)" by (cases "run_loop U ?l")
  then have i: "items l' = items ?l @ t # ms"
    using assms(1) by (simp add: tokens_def run_def lex_def)
  have p: "start ?l \<le> pos ?l" "pos ?l \<le> length (input ?l)" "state ?l \<noteq> Some LexNumber"
    by (simp_all add: lex_def)
  from run_loop_spec [OF p r] i obtain q where q: "q \<le> length s" "val t = slice s 0 q"
    by (auto simp: lex_def)
  then have v: "val t = take (length (val t)) s" by (simp add: slice_def)
  have c: "cut_at (start ?l + length (val t)) ?l = (lex (val t))\<lparr>state := Some LexArticle\<rparr>"
    by (subst (2) v) (simp add: cut_at_def lex_def)
  from first_item_cut [OF p r i assms(2)] show ?thesis
    unfolding c relexes_def tokens_def run_def by (simp add: lex_def)
qed

text \<open>
  Every item after the first is the first item of the rest of the line, by
  \<open>run_loop_restart\<close>.
\<close>

lemma later_tokens_relex:
  assumes "start l \<le> pos l" "pos l \<le> length (input l)" "state l \<noteq> Some LexNumber"
    "run_loop U l = (l', e)" "items l' = items l @ new"
  shows "\<forall>t \<in> set (tl new). typ t \<in> unit_types \<longrightarrow> relexes U t"
  using assms
proof (induction U l arbitrary: new rule: run_loop.induct)
  case (1 U l)
  show ?case
  proof (cases "state l")
    case None
    from run_loop_nil [OF this] "1.prems"(4,5) show ?thesis by simp
  next
    case (Some f)
    with "1.prems" have fn: "f \<noteq> LexNumber" by simp
    show ?thesis
    proof (cases "call_state U f l")
      case (Inl err)
      from run_loop_panic [OF Some Inl] "1.prems"(4,5) show ?thesis by simp
    next
      case (Inr b)
      obtain st l1 where b: "b = (st, l1)" by (cases b)
      with Inr have cs: "call_state U f l = Inr (st, l1)" by simp
      note s = call_state_step [OF cs "1.prems"(2) fn]
      let ?l2 = "l1\<lparr>state := st\<rparr>"
      have p: "start ?l2 \<le> pos ?l2" "pos ?l2 \<le> length (input ?l2)" "state ?l2 \<noteq> Some LexNumber"
        using s "1.prems" by (auto simp: sent_def silent_def split: if_splits)
      from run_loop_step [OF Some cs] "1.prems"(4) have r: "run_loop U ?l2 = (l', e)" by simp
      from run_loop_spec [OF p r] obtain new2 where new2: "items l' = items ?l2 @ new2" by blast
      note ih = "1.IH" [OF Some Inr b [symmetric] p r new2]
      consider (stop) "st = None"
        | (quiet) "st \<noteq> None" "silent l l1"
        | (emits) t' where "st = Some LexArticle" "sent l l1 t'"
        using s by (auto split: if_splits)
      then show ?thesis
      proof cases
        case stop
        from run_loop_nil [of ?l2 U] stop r have "l' = ?l2" by simp
        moreover from s stop have "sent l l1 itemEOF" by simp
        ultimately have "new = [\<lparr>typ = itemEOF, val = slice (input l) (start l) (pos l1)\<rparr>]"
          using "1.prems"(5) by (simp add: sent_def)
        then show ?thesis by simp
      next
        case quiet
        from quiet(2) new2 "1.prems"(5) have "new = new2" by (simp add: silent_def)
        with ih show ?thesis by simp
      next
        case emits
        from emits(2) have il: "items l1 = items l @ [\<lparr>typ = t', val = slice (input l) (start l) (pos l1)\<rparr>]"
          and sl: "start l1 = pos l1" by (simp_all add: sent_def)
        from new2 il "1.prems"(5) have tl: "tl new = new2" by simp
        have "start ?l2 = pos ?l2" "state ?l2 = Some LexArticle" using sl emits(1) by simp_all
        from run_loop_restart [OF this(1) p(2) this(2), of U] r new2
        have n2: "new2 = tokens U (drop (pos ?l2) (input ?l2))" by simp
        show ?thesis
        proof (cases new2)
          case Nil
          with tl show ?thesis by simp
        next
          case (Cons a as)
          with n2 have "tokens U (drop (pos ?l2) (input ?l2)) = a # as" by simp
          then have "typ a \<in> unit_types \<longrightarrow> relexes U a"
            by (blast intro: first_token_relexes)
          with ih Cons tl show ?thesis by simp
        qed
      qed
    qed
  qed
qed

lemma all_tokens_relex:
  assumes "t \<in> set (tokens U inp)" "typ t \<in> unit_types"
  shows "relexes U t"
proof -
  let ?l = "(lex inp)\<lparr>state := Some LexArticle\<rparr>"
  obtain l' e where r: "run_loop U ?l = (l', e)" by (cases "run_loop U ?l")
  then have i: "items l' = items ?l @ tokens U inp"
    by (simp add: tokens_def run_def lex_def)
  have p: "start ?l \<le> pos ?l" "pos ?l \<le> length (input ?l)" "state ?l \<noteq> Some LexNumber"
    by (simp_all add: lex_def)
  note later = later_tokens_relex [OF p r i]
  show ?thesis
  proof (cases "tokens U inp")
    case Nil
    with assms(1) show ?thesis by simp
  next
    case (Cons a as)
    show ?thesis
    proof (cases "t = a")
      case True
      with Cons assms(2) show ?thesis by (blast intro: first_token_relexes)
    next
      case False
      with Cons assms(1) have "t \<in> set (tl (tokens U inp))" by simp
      with later assms(2) show ?thesis by blast
    qed
  qed
qed

section \<open>Lexing the text of an item again\<close>

text \<open>
  C6. Every \<open>Word\<close>, \<open>Mark\<close>, \<open>Space\<close>, \<open>Quote\<close> or \<open>Title\<close> item that the lexer sends
  on a line lexes, when its text is given as a line of its own, to that same item (the
  same type, the whole line as text) and then the \<open>EOF\<close> item with the empty text, and
  the lexer finishes. This holds for the items sent before a panic as well, and for an
  item whose text begins with characters that no rule matches.
\<close>

theorem token_text_relexes:
  "\<forall>t \<in> set (tokens U inp).
     typ t \<in> {itemWord, itemMark, itemSpace, itemQuote, itemTitle}
     \<longrightarrow> tokens U (val t) = [t, \<lparr>typ = itemEOF, val = []\<rparr>]
         \<and> snd (run U (lex (val t))) = None"
proof (intro ballI impI)
  fix t
  assume "t \<in> set (tokens U inp)"
    and "typ t \<in> {itemWord, itemMark, itemSpace, itemQuote, itemTitle}"
  then have "relexes U t" by (intro all_tokens_relex) (simp_all add: unit_types_def)
  then show "tokens U (val t) = [t, \<lparr>typ = itemEOF, val = []\<rparr>]
      \<and> snd (run U (lex (val t))) = None"
    by (simp add: relexes_def eof_item_def)
qed

text \<open>
  A line of the byte \<open>0x01\<close> and then \<open>ab ==\<close>: the byte matches no rule and begins
  the text of the \<open>Word\<close> item, and that text lexes to the same item.
\<close>

theorem token_text_relexes_witness:
  "\<lparr>typ = itemWord, val = [CHR 0x01, CHR ''a'', CHR ''b'']\<rparr>
     \<in> set (tokens ascii_env [CHR 0x01, CHR ''a'', CHR ''b'', CHR '' '', CHR ''='', CHR ''=''])
   \<and> tokens ascii_env [CHR 0x01, CHR ''a'', CHR ''b'']
       = [\<lparr>typ = itemWord, val = [CHR 0x01, CHR ''a'', CHR ''b'']\<rparr>,
          \<lparr>typ = itemEOF, val = []\<rparr>]
   \<and> snd (run ascii_env (lex [CHR 0x01, CHR ''a'', CHR ''b''])) = None"
proof -
  have m: "\<lparr>typ = itemWord, val = [CHR 0x01, CHR ''a'', CHR ''b'']\<rparr>
     \<in> set (tokens ascii_env [CHR 0x01, CHR ''a'', CHR ''b'', CHR '' '', CHR ''='', CHR ''=''])"
    by code_simp
  from token_text_relexes [THEN bspec, OF m] have
    "tokens ascii_env [CHR 0x01, CHR ''a'', CHR ''b'']
       = [\<lparr>typ = itemWord, val = [CHR 0x01, CHR ''a'', CHR ''b'']\<rparr>,
          \<lparr>typ = itemEOF, val = []\<rparr>]
     \<and> snd (run ascii_env (lex [CHR 0x01, CHR ''a'', CHR ''b''])) = None"
    by simp
  with m show ?thesis by (rule conjI)
qed

end
